theory Spec2Isabelle
  imports Complex_Main "HOL-Library.Sublist" "HOL-Library.Multiset"
begin

section \<open>The boolean searcher of \<^verbatim>\<open>search/searchers/search_boolean.go\<close>\<close>

text \<open>
  The source file combines three ordered result streams (must, should, must-not) into
  one ordered stream of scored document matches. The development below embeds
  \<^verbatim>\<open>BooleanSearcher\<close> with its methods \<^verbatim>\<open>computeQueryNorm\<close>,
  \<^verbatim>\<open>initSearchers\<close>, \<^verbatim>\<open>advanceNextMust\<close>, \<^verbatim>\<open>Next\<close>,
  \<^verbatim>\<open>Advance\<close>, \<^verbatim>\<open>Close\<close> and \<^verbatim>\<open>Min\<close>. Every method
  that mutates its receiver or the search context returns the updated receiver and
  context next to its Go result.
\<close>

subsection \<open>Values of type float64\<close>

text \<open>
  Weights, the query norm and scores are \<^verbatim>\<open>float64\<close>. The model keeps the
  special values of IEEE-754 that the code can produce (the infinities and NaN) and
  computes with exact reals on finite values: rounding, overflow of finite results
  and the sign of zero are not represented.
\<close>

datatype float64 = Finite real | PosInf | NegInf | NaN

fun f64_add :: "float64 \<Rightarrow> float64 \<Rightarrow> float64" where
  "f64_add NaN _ = NaN"
| "f64_add _ NaN = NaN"
| "f64_add (Finite a) (Finite b) = Finite (a + b)"
| "f64_add PosInf NegInf = NaN"
| "f64_add NegInf PosInf = NaN"
| "f64_add PosInf _ = PosInf"
| "f64_add _ PosInf = PosInf"
| "f64_add NegInf _ = NegInf"
| "f64_add _ NegInf = NegInf"

fun f64_sqrt :: "float64 \<Rightarrow> float64" where
  "f64_sqrt (Finite a) = (if a < 0 then NaN else Finite (sqrt a))"
| "f64_sqrt PosInf = PosInf"
| "f64_sqrt NegInf = NaN"
| "f64_sqrt NaN = NaN"

fun f64_div :: "float64 \<Rightarrow> float64 \<Rightarrow> float64" where
  "f64_div NaN _ = NaN"
| "f64_div _ NaN = NaN"
| "f64_div (Finite a) (Finite b) =
     (if b = 0 then (if a = 0 then NaN else if 0 < a then PosInf else NegInf)
      else Finite (a / b))"
| "f64_div (Finite a) _ = Finite 0"
| "f64_div PosInf (Finite b) = (if b < 0 then NegInf else PosInf)"
| "f64_div NegInf (Finite b) = (if b < 0 then PosInf else NegInf)"
| "f64_div _ _ = NaN"

fun is_finite :: "float64 \<Rightarrow> bool" where
  "is_finite (Finite a) = True"
| "is_finite _ = False"

subsection \<open>Errors, document matches and the match pool\<close>

text \<open>
  A Go \<^verbatim>\<open>error\<close> returned by a child is an opaque value, here a number.
  Calling a method through a nil interface, or reading a field through a nil
  pointer, panics; the model makes the panic an outcome of its own.
\<close>

datatype error = ChildError nat | NilDereference

text \<open>
  A \<^verbatim>\<open>*search.DocumentMatch\<close> is a pointer to a pooled object. The field
  \<open>handle\<close> stands for the pointer: two matches are the same object exactly when
  their handles agree. The explanation and location fields play no part in the
  merge-join and are left out.
\<close>

record 'i DocumentMatch =
  handle :: nat
  IndexInternalID :: 'i
  Score :: float64

text \<open>
  Modelled from the spec: the Match Pool of the search context (package
  \<^verbatim>\<open>search\<close> is not among the sources). Every acquisition hands out a handle
  that was never handed out before, so that a second \<^verbatim>\<open>Put\<close> of one
  acquisition, or a \<^verbatim>\<open>Put\<close> of a match that went to the caller, shows in the
  log \<open>recycled\<close>. \<^verbatim>\<open>Put\<close> of a nil pointer does nothing.
\<close>

record SearchContext =
  issued :: nat
  recycled :: "nat list"

definition Pool_Get :: "SearchContext \<Rightarrow> 'i \<times> float64 \<Rightarrow> 'i DocumentMatch \<times> SearchContext" where
  "Pool_Get ctx x =
     (\<lparr>handle = issued ctx, IndexInternalID = fst x, Score = snd x\<rparr>,
      ctx\<lparr>issued := Suc (issued ctx)\<rparr>)"

definition Pool_Put :: "SearchContext \<Rightarrow> 'i DocumentMatch option \<Rightarrow> SearchContext" where
  "Pool_Put ctx d =
     (case d of None \<Rightarrow> ctx | Some m \<Rightarrow> ctx\<lparr>recycled := recycled ctx @ [handle m]\<rparr>)"

subsection \<open>The sub-searcher contract\<close>

text \<open>
  Modelled from the spec: the children of a boolean searcher implement the
  interface \<^verbatim>\<open>search.Searcher\<close>, which is not among the sources. A child is a
  cursor over a fixed stream of (identifier, score) pairs: \<open>position\<close> is the match
  it last produced (none before the first pull and after the end), \<open>upcoming\<close> the
  rest of the stream.
  \<^item> \<^verbatim>\<open>Next\<close> moves to the next entry and returns it, or returns nil at the end,
    and keeps returning nil there.
  \<^item> \<^verbatim>\<open>Advance\<close> skips forward to the first entry whose identifier is at least
    the target; a child already positioned at or past the target returns its
    current position without consuming anything.
  \<^item> Both may fail. The script \<open>faults\<close> decides it: each call consumes the head
    of the script, and fails with error \<open>k\<close> when the head is \<open>Some k\<close>. A failing
    call returns a nil match with the error. An empty script never fails.
  \<^item> \<^verbatim>\<open>Weight\<close>, \<^verbatim>\<open>Min\<close> read \<open>weight\<close> and \<open>min_required\<close>;
    \<^verbatim>\<open>SetQueryNorm\<close> is logged in \<open>norms\<close>; \<^verbatim>\<open>Close\<close> marks the child
    closed and returns \<open>close_fault\<close>.
  Every match a child returns is acquired from the pool of the context.
\<close>

record 'i Searcher =
  position :: "('i \<times> float64) option"
  upcoming :: "('i \<times> float64) list"
  faults :: "nat option list"
  weight :: float64
  norms :: "float64 list"
  min_required :: int
  close_fault :: "nat option"
  closed :: bool

type_synonym 'i pulled = "(error + 'i DocumentMatch option) \<times> 'i Searcher \<times> SearchContext"

definition Searcher_pull :: "'i Searcher \<Rightarrow> SearchContext \<Rightarrow> 'i pulled" where
  "Searcher_pull c ctx =
     (case upcoming c of
        [] \<Rightarrow> (Inr None, c\<lparr>position := None\<rparr>, ctx)
      | x # xs \<Rightarrow>
          (Inr (Some (fst (Pool_Get ctx x))), c\<lparr>position := Some x, upcoming := xs\<rparr>,
           snd (Pool_Get ctx x)))"

definition Searcher_Next :: "'i Searcher \<Rightarrow> SearchContext \<Rightarrow> 'i pulled" where
  "Searcher_Next c ctx =
     (case faults c of
        Some k # fs \<Rightarrow> (Inl (ChildError k), c\<lparr>faults := fs\<rparr>, ctx)
      | _ \<Rightarrow> Searcher_pull (c\<lparr>faults := tl (faults c)\<rparr>) ctx)"

definition at_or_past :: "('i::linorder \<times> float64) option \<Rightarrow> 'i \<Rightarrow> bool" where
  "at_or_past p t = (case p of None \<Rightarrow> False | Some x \<Rightarrow> t \<le> fst x)"

definition Searcher_Advance :: "'i::linorder Searcher \<Rightarrow> SearchContext \<Rightarrow> 'i \<Rightarrow> 'i pulled" where
  "Searcher_Advance c ctx t =
     (case faults c of
        Some k # fs \<Rightarrow> (Inl (ChildError k), c\<lparr>faults := fs\<rparr>, ctx)
      | _ \<Rightarrow>
          (if at_or_past (position c) t
           then (Inr (Some (fst (Pool_Get ctx (the (position c))))),
                 c\<lparr>faults := tl (faults c)\<rparr>, snd (Pool_Get ctx (the (position c))))
           else Searcher_pull
                  (c\<lparr>faults := tl (faults c),
                     upcoming := dropWhile (\<lambda>x. fst x < t) (upcoming c)\<rparr>) ctx))"

definition Searcher_SetQueryNorm :: "'i Searcher \<Rightarrow> float64 \<Rightarrow> 'i Searcher" where
  "Searcher_SetQueryNorm c qnorm = c\<lparr>norms := norms c @ [qnorm]\<rparr>"

definition Searcher_Close :: "'i Searcher \<Rightarrow> error option \<times> 'i Searcher" where
  "Searcher_Close c = (map_option ChildError (close_fault c), c\<lparr>closed := True\<rparr>)"

subsection \<open>The conjunction scorer\<close>

text \<open>
  Modelled from the spec: \<^verbatim>\<open>scorers.ConjunctionQueryScorer\<close> is not among the
  sources. \<^verbatim>\<open>Score\<close> receives one or two constituent matches that share one
  identifier and returns one match at that identifier whose score combines the
  constituents' scores. The ranking formula is external, so it is the parameter
  \<open>combine\<close>. The result is the first constituent itself with its score
  overwritten: this is the object that \<^verbatim>\<open>advanceNextMust\<close> is told not to
  recycle. A nil constituent is dereferenced, which panics.
\<close>

record ConjunctionQueryScorer =
  explain :: bool
  combine :: "float64 list \<Rightarrow> float64"

definition NewConjunctionQueryScorer :: "(float64 list \<Rightarrow> float64) \<Rightarrow> bool \<Rightarrow> ConjunctionQueryScorer" where
  "NewConjunctionQueryScorer f e = \<lparr>explain = e, combine = f\<rparr>"

definition Scorer_Score ::
  "ConjunctionQueryScorer \<Rightarrow> 'i DocumentMatch option list \<Rightarrow> error + 'i DocumentMatch" where
  "Scorer_Score sc constituents =
     (if constituents = [] \<or> None \<in> set constituents then Inl NilDereference
      else Inr ((the (hd constituents))
                  \<lparr>Score := combine sc (map (\<lambda>d. Score (the d)) constituents)\<rparr>))"

subsection \<open>The boolean searcher\<close>

text \<open>
  The struct of the source. The index reader is passed through and never used; the
  field \<^verbatim>\<open>min\<close> is never assigned or read; the scratch slice \<^verbatim>\<open>matches\<close> only
  carries the argument list of \<^verbatim>\<open>Score\<close>, which the model passes as a list.
\<close>

record 'i BooleanSearcher =
  mustSearcher :: "'i Searcher option"
  shouldSearcher :: "'i Searcher option"
  mustNotSearcher :: "'i Searcher option"
  queryNorm :: float64
  currMust :: "'i DocumentMatch option"
  currShould :: "'i DocumentMatch option"
  currMustNot :: "'i DocumentMatch option"
  currentID :: "'i option"
  scorer :: ConjunctionQueryScorer
  initialized :: bool

text \<open>\<^verbatim>\<open>computeQueryNorm\<close>, lines 50 to 69.\<close>

definition sumOfSquaredWeights :: "'i BooleanSearcher \<Rightarrow> float64" where
  "sumOfSquaredWeights s =
     (let sum0 = Finite 0;
          sum1 = (case mustSearcher s of None \<Rightarrow> sum0 | Some c \<Rightarrow> f64_add sum0 (weight c))
      in (case shouldSearcher s of None \<Rightarrow> sum1 | Some c \<Rightarrow> f64_add sum1 (weight c)))"

definition computeQueryNorm :: "'i BooleanSearcher \<Rightarrow> 'i BooleanSearcher" where
  "computeQueryNorm s =
     (let qn = f64_div (Finite 1) (f64_sqrt (sumOfSquaredWeights s))
      in s\<lparr>queryNorm := qn,
           mustSearcher := map_option (\<lambda>c. Searcher_SetQueryNorm c qn) (mustSearcher s),
           shouldSearcher := map_option (\<lambda>c. Searcher_SetQueryNorm c qn) (shouldSearcher s)\<rparr>)"

text \<open>
  \<^verbatim>\<open>NewBooleanSearcher\<close>, lines 36 to 48. The zero value of the struct has nil
  matches, a nil current identifier and \<^verbatim>\<open>initialized\<close> false. The first
  argument is the ranking formula of the scorer that the constructor creates.
\<close>

definition NewBooleanSearcher ::
  "(float64 list \<Rightarrow> float64) \<Rightarrow> 'i Searcher option \<Rightarrow> 'i Searcher option \<Rightarrow> 'i Searcher option
     \<Rightarrow> bool \<Rightarrow> 'i BooleanSearcher" where
  "NewBooleanSearcher formula must should mustNot expl =
     computeQueryNorm
       \<lparr>mustSearcher = must, shouldSearcher = should, mustNotSearcher = mustNot,
        queryNorm = Finite 0, currMust = None, currShould = None, currMustNot = None,
        currentID = None, scorer = NewConjunctionQueryScorer formula expl,
        initialized = False\<rparr>"

text \<open>
  The three clauses. \<open>call_child\<close> is the statement
  \<^verbatim>\<open>s.currX, err = s.xSearcher.Op(ctx, ...)\<close>: the call goes through the interface
  value (a panic when it is nil), the child and the context are updated, and the
  slot receives the returned match, which is nil when the call failed.
\<close>

datatype clause = Must | Should | MustNot

fun searcherOf :: "clause \<Rightarrow> 'i BooleanSearcher \<Rightarrow> 'i Searcher option" where
  "searcherOf Must s = mustSearcher s"
| "searcherOf Should s = shouldSearcher s"
| "searcherOf MustNot s = mustNotSearcher s"

fun currOf :: "clause \<Rightarrow> 'i BooleanSearcher \<Rightarrow> 'i DocumentMatch option" where
  "currOf Must s = currMust s"
| "currOf Should s = currShould s"
| "currOf MustNot s = currMustNot s"

fun assign :: "clause \<Rightarrow> 'i Searcher \<Rightarrow> 'i DocumentMatch option \<Rightarrow> 'i BooleanSearcher \<Rightarrow> 'i BooleanSearcher" where
  "assign Must c d s = s\<lparr>mustSearcher := Some c, currMust := d\<rparr>"
| "assign Should c d s = s\<lparr>shouldSearcher := Some c, currShould := d\<rparr>"
| "assign MustNot c d s = s\<lparr>mustNotSearcher := Some c, currMustNot := d\<rparr>"

type_synonym 'i status = "error option \<times> 'i BooleanSearcher \<times> SearchContext"

definition call_child ::
  "clause \<Rightarrow> ('i Searcher \<Rightarrow> SearchContext \<Rightarrow> 'i pulled) \<Rightarrow> 'i BooleanSearcher \<Rightarrow> SearchContext
     \<Rightarrow> 'i status" where
  "call_child cl op s ctx =
     (case searcherOf cl s of
        None \<Rightarrow> (Some NilDereference, s, ctx)
      | Some c \<Rightarrow>
          (case op c ctx of
             (Inl e, c', ctx') \<Rightarrow> (Some e, assign cl c' None s, ctx')
           | (Inr d, c', ctx') \<Rightarrow> (None, assign cl c' d s, ctx')))"

text \<open>Sequencing with \<^verbatim>\<open>if err != nil { return err }\<close> in between.\<close>

definition and_then :: "'i status \<Rightarrow> ('i BooleanSearcher \<Rightarrow> SearchContext \<Rightarrow> 'i status) \<Rightarrow> 'i status" where
  "and_then r f = (case r of (Some e, s, ctx) \<Rightarrow> (Some e, s, ctx) | (None, s, ctx) \<Rightarrow> f s ctx)"

text \<open>
  The block that recomputes the current identifier, which the source repeats at
  lines 104 to 110, 137 to 143 and 319 to 325.
\<close>

definition drivingID :: "'i BooleanSearcher \<Rightarrow> 'i option" where
  "drivingID s =
     (if mustSearcher s \<noteq> None \<and> currMust s \<noteq> None
        then map_option IndexInternalID (currMust s)
      else if mustSearcher s = None \<and> currShould s \<noteq> None
        then map_option IndexInternalID (currShould s)
      else None)"

text \<open>
  One block of \<^verbatim>\<open>initSearchers\<close> or \<^verbatim>\<open>Advance\<close>: when the child is present,
  recycle the match held for it, if any, and pull a new one.
\<close>

definition refill ::
  "clause \<Rightarrow> ('i Searcher \<Rightarrow> SearchContext \<Rightarrow> 'i pulled) \<Rightarrow> 'i BooleanSearcher \<Rightarrow> SearchContext
     \<Rightarrow> 'i status" where
  "refill cl op s ctx =
     (if searcherOf cl s \<noteq> None
      then call_child cl op s (if currOf cl s \<noteq> None then Pool_Put ctx (currOf cl s) else ctx)
      else (None, s, ctx))"

text \<open>\<^verbatim>\<open>initSearchers\<close>, lines 71 to 114.\<close>

definition initSearchers :: "'i BooleanSearcher \<Rightarrow> SearchContext \<Rightarrow> 'i status" where
  "initSearchers s ctx =
     and_then (refill Must Searcher_Next s ctx) (\<lambda>s ctx.
     and_then (refill Should Searcher_Next s ctx) (\<lambda>s ctx.
     and_then (refill MustNot Searcher_Next s ctx) (\<lambda>s ctx.
       (None, s\<lparr>currentID := drivingID s, initialized := True\<rparr>, ctx))))"

text \<open>
  \<^verbatim>\<open>advanceNextMust\<close>, lines 116 to 145. The test
  \<^verbatim>\<open>s.currMust != skipReturn\<close> compares pointers.
\<close>

definition advanceNextMust ::
  "'i BooleanSearcher \<Rightarrow> SearchContext \<Rightarrow> 'i DocumentMatch option \<Rightarrow> 'i status" where
  "advanceNextMust s ctx skipReturn =
     and_then
       (if mustSearcher s \<noteq> None
        then call_child Must Searcher_Next s
               (if map_option handle (currMust s) \<noteq> map_option handle skipReturn
                then Pool_Put ctx (currMust s) else ctx)
        else call_child Should Searcher_Next s
               (if map_option handle (currShould s) \<noteq> map_option handle skipReturn
                then Pool_Put ctx (currShould s) else ctx))
       (\<lambda>s ctx. (None, s\<lparr>currentID := drivingID s\<rparr>, ctx))"

text \<open>
  The body of the loop of \<^verbatim>\<open>Next\<close> ends in \<^verbatim>\<open>continue\<close>, in
  \<^verbatim>\<open>break\<close> with the result \<^verbatim>\<open>rv\<close>, or in \<^verbatim>\<open>return nil, err\<close>; a part
  of the body can also run to its end and fall through to the next statement.
\<close>

datatype 'i flow = Continue | Break "'i DocumentMatch" | Return error | Fallthrough

type_synonym 'i step = "'i flow \<times> 'i BooleanSearcher \<times> SearchContext"

text \<open>\<^verbatim>\<open>m != nil && m.IndexInternalID.Compare(id) < 0\<close> and
  \<^verbatim>\<open>m != nil && m.IndexInternalID.Equals(id)\<close>.\<close>

definition id_before :: "'i::linorder DocumentMatch option \<Rightarrow> 'i \<Rightarrow> bool" where
  "id_before m i = (case m of None \<Rightarrow> False | Some d \<Rightarrow> IndexInternalID d < i)"

definition id_equals :: "'i DocumentMatch option \<Rightarrow> 'i \<Rightarrow> bool" where
  "id_equals m i = (case m of None \<Rightarrow> False | Some d \<Rightarrow> IndexInternalID d = i)"

text \<open>\<^verbatim>\<open>err = s.advanceNextMust(ctx, nil); if err != nil { return nil, err }; continue\<close>.\<close>

definition reject :: "'i BooleanSearcher \<Rightarrow> SearchContext \<Rightarrow> 'i step" where
  "reject s ctx =
     (case advanceNextMust s ctx None of
        (Some e, s', ctx') \<Rightarrow> (Return e, s', ctx')
      | (None, s', ctx') \<Rightarrow> (Continue, s', ctx'))"

text \<open>The exclusion check, lines 181 to 205.\<close>

definition exclusion :: "'i::linorder \<Rightarrow> 'i BooleanSearcher \<Rightarrow> SearchContext \<Rightarrow> 'i step" where
  "exclusion cid s ctx =
     (if id_before (currMustNot s) cid then
        (case call_child MustNot (\<lambda>c ctx. Searcher_Advance c ctx cid) s
                (if currMustNot s \<noteq> None then Pool_Put ctx (currMustNot s) else ctx) of
           (Some e, s', ctx') \<Rightarrow> (Return e, s', ctx')
         | (None, s', ctx') \<Rightarrow>
             (if id_equals (currMustNot s') cid then reject s' ctx'
              else (Fallthrough, s', ctx')))
      else if id_equals (currMustNot s) cid then reject s ctx
      else (Fallthrough, s, ctx))"

text \<open>
  Scoring and emitting, \<^verbatim>\<open>rv = s.scorer.Score(ctx, cons)\<close> followed by
  \<^verbatim>\<open>advanceNextMust(ctx, rv)\<close> and \<^verbatim>\<open>break\<close>. The scorer writes the score
  into the first constituent, so the slot that holds this object sees the new score.
\<close>

definition emit ::
  "clause \<Rightarrow> 'i DocumentMatch option list \<Rightarrow> 'i BooleanSearcher \<Rightarrow> SearchContext \<Rightarrow> 'i step" where
  "emit cl cons s ctx =
     (case Scorer_Score (scorer s) cons of
        Inl e \<Rightarrow> (Return e, s, ctx)
      | Inr rv \<Rightarrow>
          (case advanceNextMust
                  (case cl of Must \<Rightarrow> s\<lparr>currMust := Some rv\<rparr>
                            | Should \<Rightarrow> s\<lparr>currShould := Some rv\<rparr>
                            | MustNot \<Rightarrow> s) ctx (Some rv) of
             (Some e, s', ctx') \<Rightarrow> (Return e, s', ctx')
           | (None, s', ctx') \<Rightarrow> (Break rv, s', ctx')))"

text \<open>"score bonus matches should", lines 218 to 232 and again 246 to 260.\<close>

definition scoreBonus :: "'i BooleanSearcher \<Rightarrow> SearchContext \<Rightarrow> 'i step" where
  "scoreBonus s ctx =
     (if currMust s \<noteq> None then emit Must [currMust s, currShould s] s ctx
      else emit Should [currShould s] s ctx)"

text \<open>"match is OK anyway", lines 235 to 242 and again 263 to 270.\<close>

definition scoreMustOnly :: "'i BooleanSearcher \<Rightarrow> SearchContext \<Rightarrow> 'i step" where
  "scoreMustOnly s ctx = emit Must [currMust s] s ctx"

text \<open>\<^verbatim>\<open>s.shouldSearcher.Min() == 0\<close>, a call through the interface value.\<close>

definition shouldMin :: "'i BooleanSearcher \<Rightarrow> error + int" where
  "shouldMin s = (case shouldSearcher s of None \<Rightarrow> Inl NilDereference | Some c \<Rightarrow> Inr (min_required c))"

text \<open>The alignment of the should clause, lines 207 to 271.\<close>

definition alignment :: "'i::linorder \<Rightarrow> 'i BooleanSearcher \<Rightarrow> SearchContext \<Rightarrow> 'i step" where
  "alignment cid s ctx =
     (if id_before (currShould s) cid then
        (case call_child Should (\<lambda>c ctx. Searcher_Advance c ctx cid) s
                (if currShould s \<noteq> None then Pool_Put ctx (currShould s) else ctx) of
           (Some e, s', ctx') \<Rightarrow> (Return e, s', ctx')
         | (None, s', ctx') \<Rightarrow>
             (if id_equals (currShould s') cid then scoreBonus s' ctx'
              else (case shouldMin s' of
                      Inl e \<Rightarrow> (Return e, s', ctx')
                    | Inr n \<Rightarrow> if n = 0 then scoreMustOnly s' ctx' else (Fallthrough, s', ctx'))))
      else if id_equals (currShould s) cid then scoreBonus s ctx
      else if shouldSearcher s = None then scoreMustOnly s ctx
      else (case shouldMin s of
              Inl e \<Rightarrow> (Return e, s, ctx)
            | Inr n \<Rightarrow> if n = 0 then scoreMustOnly s ctx else (Fallthrough, s, ctx)))"

text \<open>One iteration of the loop, lines 181 to 276.\<close>

definition Next_body :: "'i::linorder \<Rightarrow> 'i BooleanSearcher \<Rightarrow> SearchContext \<Rightarrow> 'i step" where
  "Next_body cid s ctx =
     (case exclusion cid s ctx of
        (Fallthrough, s1, ctx1) \<Rightarrow>
          (case alignment cid s1 ctx1 of
             (Fallthrough, s2, ctx2) \<Rightarrow> reject s2 ctx2
           | r \<Rightarrow> r)
      | r \<Rightarrow> r)"

subsection \<open>The loop of Next terminates\<close>

text \<open>
  Every path of the body that ends in \<^verbatim>\<open>continue\<close> has pulled the next
  entry of the driving child (the must child, or the should child when there is no
  must child), so the entries the driving child has left decrease.
\<close>

definition driver :: "'i BooleanSearcher \<Rightarrow> 'i Searcher option" where
  "driver s = (case mustSearcher s of Some c \<Rightarrow> Some c | None \<Rightarrow> shouldSearcher s)"

definition backlog :: "'i BooleanSearcher \<Rightarrow> nat" where
  "backlog s = (case driver s of None \<Rightarrow> 0 | Some c \<Rightarrow> length (upcoming c))"

definition pending :: "'i BooleanSearcher \<Rightarrow> nat" where
  "pending s = (case currentID s of None \<Rightarrow> 0 | Some i \<Rightarrow> Suc (backlog s))"

lemma pull_shape:
  "Searcher_pull c ctx = (r, c', ctx') \<Longrightarrow>
     (\<exists>d. r = Inr d \<and> (d \<noteq> None \<longrightarrow> length (upcoming c') < length (upcoming c)))
     \<and> length (upcoming c') \<le> length (upcoming c)"
  by (auto simp: Searcher_pull_def split: list.splits)

lemma Next_shrinks:
  assumes "Searcher_Next c ctx = (r, c', ctx')"
  shows "length (upcoming c') \<le> length (upcoming c)"
    and "r = Inr (Some m) \<Longrightarrow> length (upcoming c') < length (upcoming c)"
  using assms pull_shape[of "c\<lparr>faults := tl (faults c)\<rparr>" ctx r c' ctx']
  by (auto simp: Searcher_Next_def split: list.splits option.splits)

lemma Advance_shrinks:
  assumes "Searcher_Advance c ctx t = (r, c', ctx')"
  shows "length (upcoming c') \<le> length (upcoming c)"
  using assms
    pull_shape[of "c\<lparr>faults := tl (faults c), upcoming := dropWhile (\<lambda>x. fst x < t) (upcoming c)\<rparr>" ctx r c' ctx']
    length_dropWhile_le[of "\<lambda>x. fst x < t" "upcoming c"]
  by (auto simp: Searcher_Advance_def split: list.splits option.splits if_splits)

definition shrinking :: "('i Searcher \<Rightarrow> SearchContext \<Rightarrow> 'i pulled) \<Rightarrow> bool" where
  "shrinking op = (\<forall>c ctx r c' ctx'. op c ctx = (r, c', ctx') \<longrightarrow> length (upcoming c') \<le> length (upcoming c))"

lemma shrinking_Next: "shrinking Searcher_Next"
  unfolding shrinking_def using Next_shrinks(1) by blast

lemma shrinking_Advance: "shrinking (\<lambda>c ctx. Searcher_Advance c ctx t)"
  unfolding shrinking_def using Advance_shrinks by blast

lemma call_child_backlog:
  assumes "call_child cl op s ctx = (e, s', ctx')" and "shrinking op"
  shows "backlog s' \<le> backlog s" and "currentID s' = currentID s"
proof -
  show "currentID s' = currentID s"
    using assms(1) by (cases cl) (auto simp: call_child_def split: option.splits prod.splits sum.splits)
  show "backlog s' \<le> backlog s"
  proof (cases "searcherOf cl s")
    case None
    then show ?thesis using assms(1) by (simp add: call_child_def)
  next
    case (Some c)
    obtain r c' cx where op: "op c ctx = (r, c', cx)" by (cases "op c ctx") auto
    have le: "length (upcoming c') \<le> length (upcoming c)"
      using assms(2) op unfolding shrinking_def by blast
    have s': "s' = assign cl c' (case r of Inl x \<Rightarrow> None | Inr d \<Rightarrow> d) s"
      using assms(1) Some op by (auto simp: call_child_def split: sum.splits)
    show ?thesis using Some le unfolding s'
      by (cases cl) (auto simp: backlog_def driver_def split: option.splits)
  qed
qed

lemma advanceNextMust_pending:
  assumes "advanceNextMust s ctx skip = (None, s', ctx')"
  shows "pending s' \<le> backlog s"
proof (cases "mustSearcher s")
  case None
  show ?thesis
  proof (cases "shouldSearcher s")
    case n: None
    then show ?thesis using assms None
      by (simp add: advanceNextMust_def call_child_def and_then_def)
  next
    case (Some c)
    let ?ctx = "if map_option handle (currShould s) \<noteq> map_option handle skip
                then Pool_Put ctx (currShould s) else ctx"
    obtain r c' cx where op: "Searcher_Next c ?ctx = (r, c', cx)"
      by (cases "Searcher_Next c ?ctx") auto
    from assms None Some op obtain d where r: "r = Inr d"
      and s': "s' = (assign Should c' d s)\<lparr>currentID := drivingID (assign Should c' d s)\<rparr>"
      by (cases r) (auto simp: advanceNextMust_def call_child_def and_then_def)
    show ?thesis
    proof (cases d)
      case n: None
      then show ?thesis using s' None by (simp add: pending_def drivingID_def)
    next
      case (Some m)
      then have "length (upcoming c') < length (upcoming c)"
        using Next_shrinks(2)[OF op] r by simp
      then show ?thesis using s' None \<open>shouldSearcher s = Some c\<close>
        by (simp add: pending_def drivingID_def backlog_def driver_def split: option.splits)
    qed
  qed
next
  case (Some c)
  let ?ctx = "if map_option handle (currMust s) \<noteq> map_option handle skip
              then Pool_Put ctx (currMust s) else ctx"
  obtain r c' cx where op: "Searcher_Next c ?ctx = (r, c', cx)"
    by (cases "Searcher_Next c ?ctx") auto
  from assms Some op obtain d where r: "r = Inr d"
    and s': "s' = (assign Must c' d s)\<lparr>currentID := drivingID (assign Must c' d s)\<rparr>"
    by (cases r) (auto simp: advanceNextMust_def call_child_def and_then_def)
  show ?thesis
  proof (cases d)
    case None
    then show ?thesis using s' by (simp add: pending_def drivingID_def)
  next
    case m: (Some m)
    then have "length (upcoming c') < length (upcoming c)"
      using Next_shrinks(2)[OF op] r by simp
    then show ?thesis using s' Some
      by (simp add: pending_def drivingID_def backlog_def driver_def split: option.splits)
  qed
qed

lemma reject_pending:
  "reject s ctx = (Continue, s', ctx') \<Longrightarrow> pending s' \<le> backlog s"
  using advanceNextMust_pending[of s ctx None s' ctx']
  by (auto simp: reject_def split: prod.splits option.splits)

lemma exclusion_backlog:
  assumes "exclusion cid s ctx = (f, s', ctx')"
  shows "f = Continue \<Longrightarrow> pending s' \<le> backlog s"
    and "f = Fallthrough \<Longrightarrow> backlog s' \<le> backlog s"
proof -
  let ?ctx = "if currMustNot s \<noteq> None then Pool_Put ctx (currMustNot s) else ctx"
  obtain e s1 c1 where cc: "call_child MustNot (\<lambda>c ctx. Searcher_Advance c ctx cid) s ?ctx = (e, s1, c1)"
    by (cases "call_child MustNot (\<lambda>c ctx. Searcher_Advance c ctx cid) s ?ctx") auto
  have b1: "backlog s1 \<le> backlog s"
    using call_child_backlog(1)[OF cc shrinking_Advance] .
  show "f = Continue \<Longrightarrow> pending s' \<le> backlog s"
    using assms cc b1 reject_pending[of s1 c1 s' ctx'] reject_pending[of s ctx s' ctx']
    by (auto simp: exclusion_def split: if_splits option.splits)
  show "f = Fallthrough \<Longrightarrow> backlog s' \<le> backlog s"
    using assms cc b1
    by (auto simp: exclusion_def reject_def split: if_splits option.splits prod.splits)
qed

lemma emit_flow:
  "emit cl cons s ctx = (f, s', ctx') \<Longrightarrow> f \<noteq> Continue \<and> f \<noteq> Fallthrough"
  by (auto simp: emit_def split: sum.splits prod.splits option.splits)

lemma scoreBonus_flow:
  "scoreBonus s ctx = (f, s', ctx') \<Longrightarrow> f \<noteq> Continue \<and> f \<noteq> Fallthrough"
  using emit_flow by (fastforce simp: scoreBonus_def split: if_splits)

lemma scoreMustOnly_flow:
  "scoreMustOnly s ctx = (f, s', ctx') \<Longrightarrow> f \<noteq> Continue \<and> f \<noteq> Fallthrough"
  using emit_flow by (fastforce simp: scoreMustOnly_def)

lemma alignment_backlog:
  assumes "alignment cid s ctx = (f, s', ctx')"
  shows "f \<noteq> Continue" and "f = Fallthrough \<Longrightarrow> backlog s' \<le> backlog s"
proof -
  let ?ctx = "if currShould s \<noteq> None then Pool_Put ctx (currShould s) else ctx"
  obtain e s1 c1 where cc: "call_child Should (\<lambda>c ctx. Searcher_Advance c ctx cid) s ?ctx = (e, s1, c1)"
    by (cases "call_child Should (\<lambda>c ctx. Searcher_Advance c ctx cid) s ?ctx") auto
  have b1: "backlog s1 \<le> backlog s"
    using call_child_backlog(1)[OF cc shrinking_Advance] .
  show "f \<noteq> Continue"
    using assms cc scoreBonus_flow[of s1 c1 f s' ctx'] scoreBonus_flow[of s ctx f s' ctx']
      scoreMustOnly_flow[of s1 c1 f s' ctx'] scoreMustOnly_flow[of s ctx f s' ctx']
    by (auto simp: alignment_def split: if_splits option.splits sum.splits)
  show "f = Fallthrough \<Longrightarrow> backlog s' \<le> backlog s"
    using assms cc b1 scoreBonus_flow[of s1 c1 f s' ctx'] scoreBonus_flow[of s ctx f s' ctx']
      scoreMustOnly_flow[of s1 c1 f s' ctx'] scoreMustOnly_flow[of s ctx f s' ctx']
    by (auto simp: alignment_def split: if_splits option.splits sum.splits)
qed

lemma Next_body_pending:
  assumes "Next_body cid s ctx = (Continue, s', ctx')"
  shows "pending s' \<le> backlog s"
proof -
  obtain f1 s1 c1 where ex: "exclusion cid s ctx = (f1, s1, c1)"
    by (cases "exclusion cid s ctx") auto
  obtain f2 s2 c2 where al: "alignment cid s1 c1 = (f2, s2, c2)"
    by (cases "alignment cid s1 c1") auto
  show ?thesis
  proof (cases f1)
    case Fallthrough
    then have b1: "backlog s1 \<le> backlog s" using exclusion_backlog(2)[OF ex] by simp
    show ?thesis
    proof (cases f2)
      case f2: Fallthrough
      then have "backlog s2 \<le> backlog s1" using alignment_backlog(2)[OF al] by simp
      moreover have "reject s2 c2 = (Continue, s', ctx')"
        using assms ex al Fallthrough f2 by (simp add: Next_body_def)
      ultimately show ?thesis using reject_pending[of s2 c2 s' ctx'] b1 by simp
    next
      case Continue
      then show ?thesis using alignment_backlog(1)[OF al] by simp
    qed (use assms ex al Fallthrough in \<open>auto simp: Next_body_def\<close>)
  next
    case Continue
    then show ?thesis using assms ex exclusion_backlog(1)[OF ex] by (simp add: Next_body_def)
  qed (use assms ex in \<open>auto simp: Next_body_def\<close>)
qed

lemma reject_flow:
  "reject s ctx = (f, s', ctx') \<Longrightarrow> f \<noteq> Fallthrough \<and> (\<forall>rv. f \<noteq> Break rv)"
  by (auto simp: reject_def split: prod.splits option.splits)

lemma exclusion_flow:
  "exclusion cid s ctx = (f, s', ctx') \<Longrightarrow> (\<forall>rv. f \<noteq> Break rv)"
  using reject_flow
  by (fastforce simp: exclusion_def split: if_splits prod.splits option.splits)

lemma Next_body_flow:
  assumes "Next_body cid s ctx = (f, s', ctx')"
  shows "f \<noteq> Fallthrough"
proof -
  obtain f1 s1 c1 where ex: "exclusion cid s ctx = (f1, s1, c1)"
    by (cases "exclusion cid s ctx") auto
  obtain f2 s2 c2 where al: "alignment cid s1 c1 = (f2, s2, c2)"
    by (cases "alignment cid s1 c1") auto
  show ?thesis
    using assms ex al reject_flow[of s2 c2 f s' ctx']
    by (cases f1; cases f2) (auto simp: Next_body_def)
qed

text \<open>The loop of \<^verbatim>\<open>Next\<close>, lines 180 to 278: \<^verbatim>\<open>for s.currentID != nil\<close>, and
  \<^verbatim>\<open>return rv, nil\<close> after it. Running off the end of the body starts the next iteration.\<close>

function Next_loop ::
  "'i::linorder BooleanSearcher \<Rightarrow> SearchContext
     \<Rightarrow> (error + 'i DocumentMatch option) \<times> 'i BooleanSearcher \<times> SearchContext" where
  "Next_loop s ctx =
     (case currentID s of
        None \<Rightarrow> (Inr None, s, ctx)
      | Some cid \<Rightarrow>
          (case Next_body cid s ctx of
             (Continue, s', ctx') \<Rightarrow> Next_loop s' ctx'
           | (Break rv, s', ctx') \<Rightarrow> (Inr (Some rv), s', ctx')
           | (Return e, s', ctx') \<Rightarrow> (Inl e, s', ctx')
           | (Fallthrough, s', ctx') \<Rightarrow> Next_loop s' ctx'))"
  by pat_completeness auto
termination
proof (relation "measure (\<lambda>(s, ctx). pending s)")
  show "wf (measure (\<lambda>(s, ctx). pending s))" by simp
next
  fix s :: "'i::linorder BooleanSearcher" and ctx cid x1 x2 s' ctx'
  assume "currentID s = Some cid" "(x1, x2) = Next_body cid s ctx" "x1 = Continue" "(s', ctx') = x2"
  then show "((s', ctx'), (s, ctx)) \<in> measure (\<lambda>(s, ctx). pending s)"
    using Next_body_pending[of cid s ctx s' ctx'] by (auto simp: pending_def)
next
  fix s :: "'i::linorder BooleanSearcher" and ctx cid x1 x2 s' ctx'
  assume "currentID s = Some cid" "(x1, x2) = Next_body cid s ctx" "x1 = Fallthrough" "(s', ctx') = x2"
  then show "((s', ctx'), (s, ctx)) \<in> measure (\<lambda>(s, ctx). pending s)"
    using Next_body_flow[of cid s ctx x1 s' ctx'] by simp
qed

declare Next_loop.simps [simp del]

text \<open>\<^verbatim>\<open>Next\<close>, lines 168 to 279.\<close>

definition Next ::
  "'i::linorder BooleanSearcher \<Rightarrow> SearchContext
     \<Rightarrow> (error + 'i DocumentMatch option) \<times> 'i BooleanSearcher \<times> SearchContext" where
  "Next s ctx =
     (if \<not> initialized s then
        (case initSearchers s ctx of
           (Some e, s', ctx') \<Rightarrow> (Inl e, s', ctx')
         | (None, s', ctx') \<Rightarrow> Next_loop s' ctx')
      else Next_loop s ctx)"

text \<open>\<^verbatim>\<open>Advance\<close>, lines 281 to 328.\<close>

definition Advance ::
  "'i::linorder BooleanSearcher \<Rightarrow> SearchContext \<Rightarrow> 'i
     \<Rightarrow> (error + 'i DocumentMatch option) \<times> 'i BooleanSearcher \<times> SearchContext" where
  "Advance s ctx ID =
     (case (if \<not> initialized s then initSearchers s ctx else (None, s, ctx)) of
        (Some e, s', ctx') \<Rightarrow> (Inl e, s', ctx')
      | (None, s0, ctx0) \<Rightarrow>
          (case and_then (refill Must (\<lambda>c ctx. Searcher_Advance c ctx ID) s0 ctx0) (\<lambda>s ctx.
                and_then (refill Should (\<lambda>c ctx. Searcher_Advance c ctx ID) s ctx) (\<lambda>s ctx.
                and_then (refill MustNot (\<lambda>c ctx. Searcher_Advance c ctx ID) s ctx) (\<lambda>s ctx.
                  (None, s\<lparr>currentID := drivingID s\<rparr>, ctx)))) of
             (Some e, s', ctx') \<Rightarrow> (Inl e, s', ctx')
           | (None, s', ctx') \<Rightarrow> Next s' ctx'))"

text \<open>\<^verbatim>\<open>Close\<close>, lines 343 to 363. Next to the error and the updated searcher the
  model returns the clauses whose child was closed, in the order of the calls.\<close>

definition close_child ::
  "clause \<Rightarrow> error option \<times> 'i BooleanSearcher \<times> clause list
     \<Rightarrow> error option \<times> 'i BooleanSearcher \<times> clause list" where
  "close_child cl r =
     (case r of
        (Some e, s, tr) \<Rightarrow> (Some e, s, tr)
      | (None, s, tr) \<Rightarrow>
          (case searcherOf cl s of
             None \<Rightarrow> (None, s, tr)
           | Some c \<Rightarrow>
               (fst (Searcher_Close c),
                (case cl of Must \<Rightarrow> s\<lparr>mustSearcher := Some (snd (Searcher_Close c))\<rparr>
                          | Should \<Rightarrow> s\<lparr>shouldSearcher := Some (snd (Searcher_Close c))\<rparr>
                          | MustNot \<Rightarrow> s\<lparr>mustNotSearcher := Some (snd (Searcher_Close c))\<rparr>),
                tr @ [cl])))"

definition Close :: "'i BooleanSearcher \<Rightarrow> error option \<times> 'i BooleanSearcher \<times> clause list" where
  "Close s = close_child MustNot (close_child Should (close_child Must (None, s, [])))"

text \<open>\<^verbatim>\<open>Min\<close>, lines 365 to 367.\<close>

definition Min :: "'i BooleanSearcher \<Rightarrow> int" where
  "Min s = 0"


subsection \<open>Iterating Next\<close>

lemma call_child_static:
  assumes "call_child cl op s ctx = (e, s', ctx')"
  shows "initialized s' = initialized s" and "scorer s' = scorer s"
  using assms
  by (cases cl; auto simp: call_child_def split: option.splits prod.splits sum.splits)+

lemma advanceNextMust_static:
  assumes "advanceNextMust s ctx skip = (e, s', ctx')"
  shows "initialized s' = initialized s"
proof -
  let ?r = "if mustSearcher s \<noteq> None
        then call_child Must Searcher_Next s
               (if map_option handle (currMust s) \<noteq> map_option handle skip
                then Pool_Put ctx (currMust s) else ctx)
        else call_child Should Searcher_Next s
               (if map_option handle (currShould s) \<noteq> map_option handle skip
                then Pool_Put ctx (currShould s) else ctx)"
  obtain e1 s1 c1 where r: "?r = (e1, s1, c1)" by (cases ?r) auto
  then have "initialized s1 = initialized s"
    using call_child_static(1) by (metis (no_types, lifting))
  then show ?thesis using assms r
    by (cases e1) (auto simp: advanceNextMust_def and_then_def)
qed

lemma reject_static:
  "reject s ctx = (f, s', ctx') \<Longrightarrow> initialized s' = initialized s"
  using advanceNextMust_static[of s ctx None]
  by (auto simp: reject_def split: prod.splits option.splits)

lemma emit_static:
  assumes "emit cl cons s ctx = (f, s', ctx')"
  shows "initialized s' = initialized s"
proof (cases "Scorer_Score (scorer s) cons")
  case (Inl e)
  then show ?thesis using assms by (simp add: emit_def)
next
  case (Inr rv)
  let ?s = "case cl of Must \<Rightarrow> s\<lparr>currMust := Some rv\<rparr> | Should \<Rightarrow> s\<lparr>currShould := Some rv\<rparr> | MustNot \<Rightarrow> s"
  obtain e1 s1 c1 where r: "advanceNextMust ?s ctx (Some rv) = (e1, s1, c1)"
    by (cases "advanceNextMust ?s ctx (Some rv)") auto
  have "initialized s1 = initialized ?s" using advanceNextMust_static[OF r] .
  moreover have "initialized ?s = initialized s" by (cases cl) auto
  ultimately show ?thesis using assms Inr r by (cases e1) (auto simp: emit_def)
qed

lemma emit_pending:
  assumes "emit cl cons s ctx = (Break rv, s', ctx')"
  shows "pending s' \<le> backlog s"
proof (cases "Scorer_Score (scorer s) cons")
  case (Inl e)
  then show ?thesis using assms by (simp add: emit_def)
next
  case (Inr r)
  let ?s = "case cl of Must \<Rightarrow> s\<lparr>currMust := Some r\<rparr> | Should \<Rightarrow> s\<lparr>currShould := Some r\<rparr> | MustNot \<Rightarrow> s"
  obtain e1 s1 c1 where a: "advanceNextMust ?s ctx (Some r) = (e1, s1, c1)"
    by (cases "advanceNextMust ?s ctx (Some r)") auto
  have e1: "e1 = None" and s1: "s1 = s'" using assms Inr a by (cases e1; simp add: emit_def)+
  have "backlog ?s = backlog s" by (cases cl) (auto simp: backlog_def driver_def split: option.splits)
  then show ?thesis using advanceNextMust_pending[of ?s ctx "Some r" s' c1] a e1 s1 by simp
qed

lemma scoreBonus_static:
  "scoreBonus s ctx = (f, s', ctx') \<Longrightarrow> initialized s' = initialized s"
  using emit_static by (fastforce simp: scoreBonus_def split: if_splits)

lemma scoreMustOnly_static:
  "scoreMustOnly s ctx = (f, s', ctx') \<Longrightarrow> initialized s' = initialized s"
  using emit_static by (fastforce simp: scoreMustOnly_def)

lemma scoreBonus_pending:
  "scoreBonus s ctx = (Break rv, s', ctx') \<Longrightarrow> pending s' \<le> backlog s"
  using emit_pending by (fastforce simp: scoreBonus_def split: if_splits)

lemma scoreMustOnly_pending:
  "scoreMustOnly s ctx = (Break rv, s', ctx') \<Longrightarrow> pending s' \<le> backlog s"
  using emit_pending by (fastforce simp: scoreMustOnly_def)

lemma exclusion_static:
  assumes "exclusion cid s ctx = (f, s', ctx')"
  shows "initialized s' = initialized s"
proof -
  let ?ctx = "if currMustNot s \<noteq> None then Pool_Put ctx (currMustNot s) else ctx"
  obtain e s1 c1 where cc: "call_child MustNot (\<lambda>c ctx. Searcher_Advance c ctx cid) s ?ctx = (e, s1, c1)"
    by (cases "call_child MustNot (\<lambda>c ctx. Searcher_Advance c ctx cid) s ?ctx") auto
  have i1: "initialized s1 = initialized s" using call_child_static(1)[OF cc] .
  show ?thesis
    using assms cc i1 reject_static[of s1 c1 f s' ctx'] reject_static[of s ctx f s' ctx']
    by (auto simp: exclusion_def split: if_splits option.splits)
qed

lemma alignment_static:
  assumes "alignment cid s ctx = (f, s', ctx')"
  shows "initialized s' = initialized s" and "f = Break rv \<Longrightarrow> pending s' \<le> backlog s"
proof -
  let ?ctx = "if currShould s \<noteq> None then Pool_Put ctx (currShould s) else ctx"
  obtain e s1 c1 where cc: "call_child Should (\<lambda>c ctx. Searcher_Advance c ctx cid) s ?ctx = (e, s1, c1)"
    by (cases "call_child Should (\<lambda>c ctx. Searcher_Advance c ctx cid) s ?ctx") auto
  have i1: "initialized s1 = initialized s" using call_child_static(1)[OF cc] .
  have b1: "backlog s1 \<le> backlog s"
    using call_child_backlog(1)[OF cc shrinking_Advance] .
  show "initialized s' = initialized s"
    using assms cc i1 scoreBonus_static[of s1 c1 f s' ctx'] scoreBonus_static[of s ctx f s' ctx']
      scoreMustOnly_static[of s1 c1 f s' ctx'] scoreMustOnly_static[of s ctx f s' ctx']
    by (auto simp: alignment_def split: if_splits option.splits sum.splits)
  show "f = Break rv \<Longrightarrow> pending s' \<le> backlog s"
    using assms cc b1 scoreBonus_pending[of s1 c1 rv s' ctx'] scoreBonus_pending[of s ctx rv s' ctx']
      scoreMustOnly_pending[of s1 c1 rv s' ctx'] scoreMustOnly_pending[of s ctx rv s' ctx']
    by (auto simp: alignment_def split: if_splits option.splits sum.splits)
qed

lemma Next_body_static:
  assumes "Next_body cid s ctx = (f, s', ctx')"
  shows "initialized s' = initialized s" and "f = Break rv \<Longrightarrow> pending s' \<le> backlog s"
proof -
  obtain f1 s1 c1 where ex: "exclusion cid s ctx = (f1, s1, c1)"
    by (cases "exclusion cid s ctx") auto
  obtain f2 s2 c2 where al: "alignment cid s1 c1 = (f2, s2, c2)"
    by (cases "alignment cid s1 c1") auto
  have i1: "initialized s1 = initialized s" using exclusion_static[OF ex] .
  have i2: "initialized s2 = initialized s1" using alignment_static(1)[OF al] .
  show "initialized s' = initialized s"
    using assms ex al i1 i2 reject_static[of s2 c2 f s' ctx']
    by (cases f1; cases f2) (auto simp: Next_body_def)
  show "f = Break rv \<Longrightarrow> pending s' \<le> backlog s"
    using assms ex al exclusion_backlog(2)[OF ex] alignment_static(2)[OF al, of rv]
      exclusion_flow[OF ex] reject_flow[of s2 c2 f s' ctx']
    by (cases f1; cases f2) (auto simp: Next_body_def)
qed

lemma Next_loop_static:
  "Next_loop s ctx = (r, s', ctx') \<Longrightarrow> initialized s' = initialized s"
proof (induction s ctx rule: Next_loop.induct)
  case (1 s ctx)
  show ?case
  proof (cases "currentID s")
    case None
    then show ?thesis using "1.prems" by (simp add: Next_loop.simps[of s ctx])
  next
    case (Some cid)
    obtain f s1 c1 where b: "Next_body cid s ctx = (f, s1, c1)"
      by (cases "Next_body cid s ctx") auto
    have i1: "initialized s1 = initialized s" using Next_body_static(1)[OF b] .
    show ?thesis
    proof (cases f)
      case Continue
      then show ?thesis
        using "1.IH"(1)[OF Some b[symmetric] Continue refl] "1.prems" Some b i1
        by (simp add: Next_loop.simps[of s ctx])
    next
      case Fallthrough
      then show ?thesis using Next_body_flow[OF b] by simp
    qed (use "1.prems" Some b i1 in \<open>auto simp: Next_loop.simps[of s ctx]\<close>)
  qed
qed

lemma Next_loop_pending:
  "Next_loop s ctx = (Inr (Some rv), s', ctx') \<Longrightarrow> pending s' < pending s"
proof (induction s ctx rule: Next_loop.induct)
  case (1 s ctx)
  show ?case
  proof (cases "currentID s")
    case None
    then show ?thesis using "1.prems" by (simp add: Next_loop.simps[of s ctx])
  next
    case (Some cid)
    obtain f s1 c1 where b: "Next_body cid s ctx = (f, s1, c1)"
      by (cases "Next_body cid s ctx") auto
    have p: "pending s = Suc (backlog s)" using Some by (simp add: pending_def)
    show ?thesis
    proof (cases f)
      case Continue
      have "pending s' < pending s1"
        using "1.IH"(1)[OF Some b[symmetric] Continue refl] "1.prems" Some b Continue
        by (simp add: Next_loop.simps[of s ctx])
      then show ?thesis using Next_body_pending[of cid s ctx s1 c1] b Continue p by simp
    next
      case Fallthrough
      then show ?thesis using Next_body_flow[OF b] by simp
    next
      case (Break x)
      then show ?thesis
        using Next_body_static(2)[OF b, of x] "1.prems" Some b p
        by (simp add: Next_loop.simps[of s ctx])
    next
      case (Return e)
      then show ?thesis using "1.prems" Some b by (simp add: Next_loop.simps[of s ctx])
    qed
  qed
qed


lemma refill_backlog:
  assumes "refill cl op s ctx = (e, s', ctx')" and "shrinking op"
  shows "backlog s' \<le> backlog s" and "initialized s' = initialized s"
  using assms call_child_backlog(1)[of cl op s _ e s' ctx'] call_child_static(1)[of cl op s _ e s' ctx']
  by (auto simp: refill_def split: if_splits)

lemma and_then_None:
  "and_then r f = (None, s', ctx') \<Longrightarrow> \<exists>s1 c1. r = (None, s1, c1) \<and> f s1 c1 = (None, s', ctx')"
  by (cases r; cases "fst r") (auto simp: and_then_def)

lemma and_then_Some:
  "and_then r f = (Some e, s', ctx') \<Longrightarrow>
     r = (Some e, s', ctx') \<or> (\<exists>s1 c1. r = (None, s1, c1) \<and> f s1 c1 = (Some e, s', ctx'))"
  by (cases r; cases "fst r") (auto simp: and_then_def)

lemma initSearchers_None:
  assumes "initSearchers s ctx = (None, s', ctx')"
  obtains s1 c1 s2 c2 s3 where "refill Must Searcher_Next s ctx = (None, s1, c1)"
    and "refill Should Searcher_Next s1 c1 = (None, s2, c2)"
    and "refill MustNot Searcher_Next s2 c2 = (None, s3, ctx')"
    and "s' = s3\<lparr>currentID := drivingID s3, initialized := True\<rparr>"
proof -
  from and_then_None[OF assms[unfolded initSearchers_def]]
  obtain s1 c1 where r1: "refill Must Searcher_Next s ctx = (None, s1, c1)"
    and a1: "and_then (refill Should Searcher_Next s1 c1) (\<lambda>s ctx.
               and_then (refill MustNot Searcher_Next s ctx) (\<lambda>s ctx.
                 (None, s\<lparr>currentID := drivingID s, initialized := True\<rparr>, ctx))) = (None, s', ctx')"
    by blast
  from and_then_None[OF a1]
  obtain s2 c2 where r2: "refill Should Searcher_Next s1 c1 = (None, s2, c2)"
    and a2: "and_then (refill MustNot Searcher_Next s2 c2) (\<lambda>s ctx.
                 (None, s\<lparr>currentID := drivingID s, initialized := True\<rparr>, ctx)) = (None, s', ctx')"
    by blast
  from and_then_None[OF a2]
  obtain s3 c3 where r3: "refill MustNot Searcher_Next s2 c2 = (None, s3, c3)"
    and s': "(None, s3\<lparr>currentID := drivingID s3, initialized := True\<rparr>, c3) = (None, s', ctx')"
    by blast
  show thesis using that[OF r1 r2] r3 s' by simp
qed

lemma initSearchers_span:
  assumes "initSearchers s ctx = (None, s', ctx')"
  shows "initialized s'" and "backlog s' \<le> backlog s"
proof -
  from initSearchers_None[OF assms]
  obtain s1 c1 s2 c2 s3 where r1: "refill Must Searcher_Next s ctx = (None, s1, c1)"
    and r2: "refill Should Searcher_Next s1 c1 = (None, s2, c2)"
    and r3: "refill MustNot Searcher_Next s2 c2 = (None, s3, ctx')"
    and s': "s' = s3\<lparr>currentID := drivingID s3, initialized := True\<rparr>"
    by blast
  show "initialized s'" using s' by simp
  have "backlog s3 \<le> backlog s"
    using refill_backlog(1)[OF r1 shrinking_Next] refill_backlog(1)[OF r2 shrinking_Next]
      refill_backlog(1)[OF r3 shrinking_Next] by simp
  moreover have "backlog s' = backlog s3"
    using s' by (simp add: backlog_def driver_def split: option.splits)
  ultimately show "backlog s' \<le> backlog s" by simp
qed

text \<open>The matches a searcher still owes its caller, as a number that every
  successful \<^verbatim>\<open>Next\<close> decreases.\<close>

definition span :: "'i BooleanSearcher \<Rightarrow> nat" where
  "span s = (if initialized s then pending s else backlog s + 2)"

lemma Next_span:
  assumes "Next s ctx = (Inr (Some rv), s', ctx')"
  shows "span s' < span s"
proof (cases "initialized s")
  case True
  then have l: "Next_loop s ctx = (Inr (Some rv), s', ctx')" using assms by (simp add: Next_def)
  show ?thesis using Next_loop_pending[OF l] Next_loop_static[OF l] True by (simp add: span_def)
next
  case False
  obtain e s1 c1 where i: "initSearchers s ctx = (e, s1, c1)"
    by (cases "initSearchers s ctx") auto
  have e: "e = None" and l: "Next_loop s1 c1 = (Inr (Some rv), s', ctx')"
    using assms False i by (cases e; simp add: Next_def)+
  have "pending s1 \<le> Suc (backlog s1)" by (simp add: pending_def split: option.splits)
  then show ?thesis
    using Next_loop_pending[OF l] Next_loop_static[OF l] initSearchers_span[OF i[unfolded e]] False
    by (simp add: span_def)
qed

text \<open>A caller that iterates \<^verbatim>\<open>Next\<close> to exhaustion: the results in the order
  of the calls, and the error that ended the iteration, if one did.\<close>

function drain ::
  "'i::linorder BooleanSearcher \<Rightarrow> SearchContext
     \<Rightarrow> 'i DocumentMatch list \<times> error option \<times> 'i BooleanSearcher \<times> SearchContext" where
  "drain s ctx =
     (case Next s ctx of
        (Inl e, s', ctx') \<Rightarrow> ([], Some e, s', ctx')
      | (Inr None, s', ctx') \<Rightarrow> ([], None, s', ctx')
      | (Inr (Some rv), s', ctx') \<Rightarrow>
          (case drain s' ctx' of (rvs, r) \<Rightarrow> (rv # rvs, r)))"
  by pat_completeness auto
termination
proof (relation "measure (\<lambda>(s, ctx). span s)")
  show "wf (measure (\<lambda>(s, ctx). span s))" by simp
next
  fix s :: "'i::linorder BooleanSearcher" and ctx x1 x2 b x2a rv s' ctx'
  assume "(x1, x2) = Next s ctx" "x1 = Inr b" "b = Some rv" "(s', ctx') = x2"
  then show "((s', ctx'), (s, ctx)) \<in> measure (\<lambda>(s, ctx). span s)"
    using Next_span[of s ctx rv s' ctx'] by auto
qed

declare drain.simps [simp del]



text \<open>A child that has not been pulled yet, over a given stream, that never fails.\<close>

definition fresh :: "('i \<times> float64) list \<Rightarrow> int \<Rightarrow> 'i Searcher" where
  "fresh xs n =
     \<lparr>position = None, upcoming = xs, faults = [], weight = Finite 1, norms = [],
      min_required = n, close_fault = None, closed = False\<rparr>"

definition new_context :: SearchContext where
  "new_context = \<lparr>issued = 0, recycled = []\<rparr>"

text \<open>The query norm that \<^verbatim>\<open>computeQueryNorm\<close> computes, and the searcher that the
  constructor returns, field by field.\<close>

definition norm_of :: "'i Searcher option \<Rightarrow> 'i Searcher option \<Rightarrow> float64" where
  "norm_of must should =
     f64_div (Finite 1) (f64_sqrt
       (case should of
          None \<Rightarrow> (case must of None \<Rightarrow> Finite 0 | Some c \<Rightarrow> f64_add (Finite 0) (weight c))
        | Some c' \<Rightarrow>
            f64_add (case must of None \<Rightarrow> Finite 0 | Some c \<Rightarrow> f64_add (Finite 0) (weight c))
              (weight c')))"

lemma NewBooleanSearcher_record:
  "NewBooleanSearcher f must should mustNot e =
     \<lparr>mustSearcher = map_option (\<lambda>c. c\<lparr>norms := norms c @ [norm_of must should]\<rparr>) must,
      shouldSearcher = map_option (\<lambda>c. c\<lparr>norms := norms c @ [norm_of must should]\<rparr>) should,
      mustNotSearcher = mustNot, queryNorm = norm_of must should,
      currMust = None, currShould = None, currMustNot = None, currentID = None,
      scorer = \<lparr>explain = e, combine = f\<rparr>, initialized = False\<rparr>"
  by (simp add: NewBooleanSearcher_def computeQueryNorm_def sumOfSquaredWeights_def Let_def
        norm_of_def Searcher_SetQueryNorm_def NewConjunctionQueryScorer_def)

section \<open>Closing\<close>

text \<open>
  The clauses that have a child, in the order in which \<^verbatim>\<open>Close\<close> visits them;
  the error that closing the child of a clause returns; a child after its
  \<^verbatim>\<open>Close\<close> was called.
\<close>

definition present :: "'i BooleanSearcher \<Rightarrow> clause list" where
  "present s = filter (\<lambda>cl. searcherOf cl s \<noteq> None) [Must, Should, MustNot]"

definition close_error :: "'i BooleanSearcher \<Rightarrow> clause \<Rightarrow> error option" where
  "close_error s cl = (case searcherOf cl s of None \<Rightarrow> None | Some c \<Rightarrow> map_option ChildError (close_fault c))"

definition mark_closed :: "'i Searcher option \<Rightarrow> 'i Searcher option" where
  "mark_closed c = map_option (\<lambda>c. c\<lparr>closed := True\<rparr>) c"

lemma all_clause: "(\<forall>cl. P cl) = (P Must \<and> P Should \<and> P MustNot)"
  by (metis clause.exhaust)

lemma Close_cases:
  "case Close s of (err, s', tr) \<Rightarrow>
     prefix tr (present s)
     \<and> (\<forall>cl. searcherOf cl s' = (if cl \<in> set tr then mark_closed (searcherOf cl s) else searcherOf cl s))
     \<and> (\<forall>cl \<in> set (butlast tr). close_error s cl = None)
     \<and> err = (if tr = [] then None else close_error s (last tr))
     \<and> (err = None \<longrightarrow> tr = present s)"
proof (cases "mustSearcher s")
  case None
  note m = None
  show ?thesis
  proof (cases "shouldSearcher s")
    case None
    note sh = None
    show ?thesis
    proof (cases "mustNotSearcher s")
      case None
      then show ?thesis using m sh
        by (simp add: Close_def close_child_def present_def all_clause)
    next
      case (Some n)
      then show ?thesis using m sh
        by (cases "close_fault n")
           (simp_all add: Close_def close_child_def present_def all_clause
              Searcher_Close_def close_error_def mark_closed_def)
    qed
  next
    case (Some c)
    note sh = Some
    show ?thesis
    proof (cases "mustNotSearcher s")
      case None
      then show ?thesis using m sh
        by (cases "close_fault c")
           (simp_all add: Close_def close_child_def present_def all_clause
              Searcher_Close_def close_error_def mark_closed_def)
    next
      case (Some n)
      then show ?thesis using m sh
        by (cases "close_fault c"; cases "close_fault n")
           (simp_all add: Close_def close_child_def present_def all_clause
              Searcher_Close_def close_error_def mark_closed_def)
    qed
  qed
next
  case (Some a)
  note m = Some
  show ?thesis
  proof (cases "shouldSearcher s")
    case None
    note sh = None
    show ?thesis
    proof (cases "mustNotSearcher s")
      case None
      then show ?thesis using m sh
        by (cases "close_fault a")
           (simp_all add: Close_def close_child_def present_def all_clause
              Searcher_Close_def close_error_def mark_closed_def)
    next
      case (Some n)
      then show ?thesis using m sh
        by (cases "close_fault a"; cases "close_fault n")
           (simp_all add: Close_def close_child_def present_def all_clause
              Searcher_Close_def close_error_def mark_closed_def)
    qed
  next
    case (Some c)
    note sh = Some
    show ?thesis
    proof (cases "mustNotSearcher s")
      case None
      then show ?thesis using m sh
        by (cases "close_fault a"; cases "close_fault c")
           (simp_all add: Close_def close_child_def present_def all_clause
              Searcher_Close_def close_error_def mark_closed_def)
    next
      case (Some n)
      then show ?thesis using m sh
        by (cases "close_fault a"; cases "close_fault c"; cases "close_fault n")
           (simp_all add: Close_def close_child_def present_def all_clause
              Searcher_Close_def close_error_def mark_closed_def)
    qed
  qed
qed


text \<open>
  Claim C7. \<^verbatim>\<open>Close\<close> closes the must child, then the should child, then the
  must-not child: the children it closed are an initial part of the present clauses
  in that order, exactly those children are marked closed and the others are left
  untouched. Every child closed before the last one closed without error, the
  result is the result of the last \<^verbatim>\<open>Close\<close> that was called, and when the
  result is no error every present child was closed. So the first error is
  returned, and the children after the failing one are not closed.
\<close>

theorem Close_in_order_stops_at_first_error:
  assumes "Close s = (err, s', tr)"
  shows "prefix tr (present s)
       \<and> (\<forall>cl. searcherOf cl s' = (if cl \<in> set tr then mark_closed (searcherOf cl s) else searcherOf cl s))
       \<and> (\<forall>cl \<in> set (butlast tr). close_error s cl = None)
       \<and> err = (if tr = [] then None else close_error s (last tr))
       \<and> (err = None \<longrightarrow> tr = present s)"
  using Close_cases[of s] unfolding assms prod.case .

definition closing_example :: "nat BooleanSearcher" where
  "closing_example =
     NewBooleanSearcher (\<lambda>xs. Finite 0)
       (Some (fresh [(1, Finite 1)] 0))
       (Some ((fresh [(1, Finite 1)] 0)\<lparr>close_fault := Some 7\<rparr>))
       (Some (fresh [(2, Finite 1)] 0)) False"

theorem Close_in_order_stops_at_first_error_witness:
  "fst (Close closing_example) = Some (ChildError 7)
   \<and> snd (snd (Close closing_example)) = [Must, Should]
   \<and> prefix (snd (snd (Close closing_example))) (present closing_example)
   \<and> map_option closed (mustSearcher (fst (snd (Close closing_example)))) = Some True
   \<and> map_option closed (shouldSearcher (fst (snd (Close closing_example)))) = Some True
   \<and> map_option closed (mustNotSearcher (fst (snd (Close closing_example)))) = Some False
   \<and> close_error closing_example Must = None"
proof -
  have run: "Close closing_example
      = (fst (Close closing_example), fst (snd (Close closing_example)), snd (snd (Close closing_example)))"
    by simp
  have order: "prefix (snd (snd (Close closing_example))) (present closing_example)"
    using Close_in_order_stops_at_first_error [OF run] by (rule conjunct1)
  have rest: "fst (Close closing_example) = Some (ChildError 7)
   \<and> snd (snd (Close closing_example)) = [Must, Should]
   \<and> map_option closed (mustSearcher (fst (snd (Close closing_example)))) = Some True
   \<and> map_option closed (shouldSearcher (fst (snd (Close closing_example)))) = Some True
   \<and> map_option closed (mustNotSearcher (fst (snd (Close closing_example)))) = Some False
   \<and> close_error closing_example Must = None"
    by (simp add: closing_example_def NewBooleanSearcher_record
        fresh_def Close_def close_child_def Searcher_Close_def close_error_def)
  show ?thesis using order rest by blast
qed


section \<open>The minimum of a boolean searcher\<close>

text \<open>
  Claim C10. \<^verbatim>\<open>Min\<close> returns 0 for every boolean searcher, whatever its
  children are. In particular a searcher built with no must child and a should
  child of any \<open>min_required\<close> reports 0, and an outer searcher that holds such a
  searcher as its should child (a child whose \<open>min_required\<close> is what the inner
  \<^verbatim>\<open>Min\<close> returns) reads 0 where it tests \<^verbatim>\<open>s.shouldSearcher.Min() == 0\<close>.
\<close>

theorem Min_always_zero:
  "Min s = 0
   \<and> Min (NewBooleanSearcher f None (Some (c\<lparr>min_required := k\<rparr>)) mustNot e) = 0
   \<and> shouldMin (outer\<lparr>shouldSearcher :=
        Some (view\<lparr>min_required := Min (NewBooleanSearcher f None (Some (c\<lparr>min_required := k\<rparr>)) mustNot e)\<rparr>)\<rparr>)
       = Inr 0"
  by (simp add: Min_def shouldMin_def)


section \<open>End of stream\<close>

lemma Next_loop_exhausted:
  "currentID s = None \<Longrightarrow> Next_loop s ctx = (Inr None, s, ctx)"
  by (simp add: Next_loop.simps[of s ctx])

lemma Next_loop_step:
  "currentID s = Some cid \<Longrightarrow>
   Next_loop s ctx =
     (case Next_body cid s ctx of
        (Continue, s', ctx') \<Rightarrow> Next_loop s' ctx'
      | (Break rv, s', ctx') \<Rightarrow> (Inr (Some rv), s', ctx')
      | (Return e, s', ctx') \<Rightarrow> (Inl e, s', ctx')
      | (Fallthrough, s', ctx') \<Rightarrow> Next_loop s' ctx')"
  by (simp add: Next_loop.simps[of s ctx])

lemma Next_loop_end:
  "Next_loop s ctx = (Inr None, s', ctx') \<Longrightarrow> currentID s' = None"
proof (induction s ctx rule: Next_loop.induct)
  case (1 s ctx)
  show ?case
  proof (cases "currentID s")
    case None
    then show ?thesis using "1.prems" by (simp add: Next_loop_exhausted)
  next
    case (Some cid)
    obtain f s1 c1 where b: "Next_body cid s ctx = (f, s1, c1)"
      by (cases "Next_body cid s ctx") auto
    show ?thesis
    proof (cases f)
      case Continue
      then show ?thesis
        using "1.IH"(1)[OF Some b[symmetric] Continue refl] "1.prems" Some b
        by (simp add: Next_loop_step)
    next
      case Fallthrough
      then show ?thesis using Next_body_flow[OF b] by simp
    qed (use "1.prems" Some b in \<open>auto simp: Next_loop_step\<close>)
  qed
qed

lemma Next_end_state:
  assumes "Next s ctx = (Inr None, s', ctx')"
  shows "currentID s' = None \<and> initialized s'"
proof (cases "initialized s")
  case True
  then have l: "Next_loop s ctx = (Inr None, s', ctx')" using assms by (simp add: Next_def)
  show ?thesis using Next_loop_end[OF l] Next_loop_static[OF l] True by simp
next
  case False
  obtain e s1 c1 where i: "initSearchers s ctx = (e, s1, c1)"
    by (cases "initSearchers s ctx") auto
  have e: "e = None" and l: "Next_loop s1 c1 = (Inr None, s', ctx')"
    using assms False i by (cases e; simp add: Next_def)+
  show ?thesis
    using Next_loop_end[OF l] Next_loop_static[OF l] initSearchers_span(1)[OF i[unfolded e]] by simp
qed

text \<open>The error of the first call to a child, when its script makes that call fail.\<close>

definition first_pull_error :: "'i Searcher option \<Rightarrow> error option" where
  "first_pull_error c =
     (case c of None \<Rightarrow> None
      | Some c \<Rightarrow> (case faults c of Some k # fs \<Rightarrow> Some (ChildError k) | _ \<Rightarrow> None))"

lemma Next_without_driver:
  "fst (Next (NewBooleanSearcher f None None mustNot e) ctx)
     = (case first_pull_error mustNot of Some err \<Rightarrow> Inl err | None \<Rightarrow> Inr None)"
proof (cases mustNot)
  case None
  then show ?thesis
    by (simp add: NewBooleanSearcher_record Next_def initSearchers_def refill_def and_then_def
        drivingID_def first_pull_error_def Next_loop_exhausted)
next
  case (Some c)
  show ?thesis
  proof (cases "\<exists>k fs. faults c = Some k # fs")
    case True
    then obtain k fs where "faults c = Some k # fs" by blast
    then show ?thesis using Some
      by (simp add: NewBooleanSearcher_record Next_def initSearchers_def refill_def and_then_def
          call_child_def Searcher_Next_def first_pull_error_def)
  next
    case False
    then have fp: "first_pull_error mustNot = None"
      using Some by (auto simp: first_pull_error_def split: list.splits option.splits)
    have nx: "Searcher_Next c ctx = Searcher_pull (c\<lparr>faults := tl (faults c)\<rparr>) ctx"
      using False by (auto simp: Searcher_Next_def split: list.splits option.splits)
    show ?thesis using Some fp nx
      by (cases "upcoming c")
         (simp_all add: NewBooleanSearcher_record Next_def initSearchers_def refill_def and_then_def
          call_child_def Searcher_pull_def drivingID_def Next_loop_exhausted)
  qed
qed

text \<open>
  Claim C9, as amended. A boolean searcher with no must child and no should child
  returns end-of-stream from its first \<^verbatim>\<open>Next\<close>, whatever the stream of its
  must-not child is, unless the first pull of the must-not child fails: then
  \<^verbatim>\<open>Next\<close> returns that error. And for every boolean searcher, in any state
  and with any context, once \<^verbatim>\<open>Next\<close> has returned end-of-stream the next
  \<^verbatim>\<open>Next\<close> returns end-of-stream again and changes nothing.
\<close>

theorem Next_end_of_stream:
  "fst (Next (NewBooleanSearcher f None None mustNot e) ctx)
     = (case first_pull_error mustNot of Some err \<Rightarrow> Inl err | None \<Rightarrow> Inr None)
   \<and> (Next s ctx1 = (Inr None, s', ctx2) \<longrightarrow> Next s' ctx3 = (Inr None, s', ctx3))"
proof -
  have "Next s' ctx3 = (Inr None, s', ctx3)" if "Next s ctx1 = (Inr None, s', ctx2)"
    using Next_end_state[OF that] by (simp add: Next_def Next_loop_exhausted)
  then show ?thesis using Next_without_driver by blast
qed

text \<open>
  The claim as stated promises end-of-stream without error regardless of the
  must-not child. \<^verbatim>\<open>initSearchers\<close> still pulls the must-not child (lines 94
  to 101) and returns its error.
\<close>

definition failing_mustNot_example :: "nat BooleanSearcher" where
  "failing_mustNot_example =
     NewBooleanSearcher (\<lambda>xs. Finite 0) None None
       (Some ((fresh [(1, Finite 1)] 0)\<lparr>faults := [Some 7]\<rparr>)) False"

theorem Next_without_driver_counterexample:
  "fst (Next failing_mustNot_example new_context) = Inl (ChildError 7)"
  by (simp add: failing_mustNot_example_def Next_without_driver first_pull_error_def fresh_def)

definition mustNot_only_example :: "nat BooleanSearcher" where
  "mustNot_only_example =
     NewBooleanSearcher (\<lambda>xs. Finite 0) None None (Some (fresh [(1, Finite 1)] 0)) False"

theorem Next_end_of_stream_witness:
  "fst (Next mustNot_only_example new_context) = Inr None
   \<and> Next (fst (snd (Next mustNot_only_example new_context))) new_context
       = (Inr None, fst (snd (Next mustNot_only_example new_context)), new_context)"
proof -
  have a: "fst (Next mustNot_only_example new_context) = Inr None"
    by (simp add: mustNot_only_example_def Next_without_driver first_pull_error_def fresh_def)
  then have run: "Next mustNot_only_example new_context
      = (Inr None, fst (snd (Next mustNot_only_example new_context)),
         snd (snd (Next mustNot_only_example new_context)))"
    by (metis prod.collapse)
  have "Next (fst (snd (Next mustNot_only_example new_context))) new_context
       = (Inr None, fst (snd (Next mustNot_only_example new_context)), new_context)"
    using Next_end_of_stream[of "\<lambda>xs. Finite 0" None False new_context mustNot_only_example new_context
        "fst (snd (Next mustNot_only_example new_context))"
        "snd (snd (Next mustNot_only_example new_context))" new_context] run
    by blast
  then show ?thesis using a by blast
qed


section \<open>Searchers over children that never fail\<close>

text \<open>
  The claims about the results of the merge-join are about children that emit
  fixed, strictly increasing streams. This section relates the code, run over such
  children, to a function on the lists that the children have left.
\<close>

subsection \<open>Children\<close>

definition item :: "'i DocumentMatch \<Rightarrow> 'i \<times> float64" where
  "item m = (IndexInternalID m, Score m)"

fun first :: "'a list \<Rightarrow> 'a option" where
  "first [] = None"
| "first (x # xs) = Some x"

definition skip_to :: "'i::linorder \<Rightarrow> ('i \<times> float64) list \<Rightarrow> ('i \<times> float64) list" where
  "skip_to t xs = dropWhile (\<lambda>x. fst x < t) xs"

definition at_head :: "'i \<Rightarrow> ('i \<times> float64) list \<Rightarrow> bool" where
  "at_head t xs = (case xs of [] \<Rightarrow> False | x # ys \<Rightarrow> fst x = t)"

definition ascending :: "('i::linorder \<times> float64) list \<Rightarrow> bool" where
  "ascending xs = sorted_wrt (<) (map fst xs)"

definition remaining :: "'i Searcher \<Rightarrow> ('i \<times> float64) list" where
  "remaining c = (case position c of None \<Rightarrow> [] | Some x \<Rightarrow> [x]) @ upcoming c"

definition steady :: "'i::linorder Searcher \<Rightarrow> bool" where
  "steady c = (faults c = [] \<and> (position c = None \<longrightarrow> upcoming c = []) \<and> ascending (remaining c))"

definition idle :: "'i::linorder Searcher \<Rightarrow> bool" where
  "idle c = (faults c = [] \<and> position c = None \<and> ascending (upcoming c))"

text \<open>What a successful call to a child achieved: the child is past its first pull,
  what it has left is \<open>xs\<close>, and the match it returned is the head of \<open>xs\<close>.\<close>

definition landed :: "('i::linorder \<times> float64) list \<Rightarrow> 'i Searcher \<Rightarrow> 'i pulled \<Rightarrow> bool" where
  "landed xs c r =
     (case r of
        (Inl e, c', ctx') \<Rightarrow> False
      | (Inr d, c', ctx') \<Rightarrow>
          steady c' \<and> remaining c' = xs \<and> map_option item d = first xs
          \<and> min_required c' = min_required c)"

lemma ascending_tl: "ascending xs \<Longrightarrow> ascending (tl xs)"
  by (cases xs) (auto simp: ascending_def)

lemma ascending_skip: "ascending xs \<Longrightarrow> ascending (skip_to t xs)"
  unfolding ascending_def skip_to_def
  by (metis append_take_drop_id dropWhile_eq_drop map_append sorted_wrt_append)

lemma item_Pool_Get [simp]: "item (fst (Pool_Get ctx x)) = x"
  by (simp add: item_def Pool_Get_def)

lemma no_faults_id: "faults c = [] \<Longrightarrow> c\<lparr>faults := []\<rparr> = c"
  by simp

lemma pull_landed:
  assumes "faults c = []" and "ascending (upcoming c)"
  shows "landed (upcoming c) c (Searcher_pull c ctx)"
  using assms
  by (cases "upcoming c") (auto simp: landed_def Searcher_pull_def steady_def remaining_def)

lemma Next_steady:
  assumes "steady c"
  shows "landed (tl (remaining c)) c (Searcher_Next c ctx)"
proof -
  have f: "faults c = []" using assms by (simp add: steady_def)
  have u: "upcoming c = tl (remaining c)"
    using assms by (cases "position c") (auto simp: steady_def remaining_def)
  have "ascending (upcoming c)"
    unfolding u using assms ascending_tl by (auto simp: steady_def)
  from pull_landed[OF f this, of ctx] show ?thesis
    using f u by (simp add: Searcher_Next_def no_faults_id)
qed

lemma Next_idle:
  assumes "idle c"
  shows "landed (remaining c) c (Searcher_Next c ctx)"
proof -
  have f: "faults c = []" using assms by (simp add: idle_def)
  have u: "upcoming c = remaining c" using assms by (simp add: idle_def remaining_def)
  have "ascending (upcoming c)" using assms by (simp add: idle_def)
  from pull_landed[OF f this, of ctx] show ?thesis
    using f u by (simp add: Searcher_Next_def no_faults_id)
qed

lemma Advance_steady:
  assumes "steady c"
  shows "landed (skip_to t (remaining c)) c (Searcher_Advance c ctx t)"
proof -
  have f: "faults c = []" using assms by (simp add: steady_def)
  show ?thesis
  proof (cases "position c")
    case None
    then have u: "upcoming c = []" "remaining c = []" using assms by (auto simp: steady_def remaining_def)
    show ?thesis using f None u
      by (simp add: Searcher_Advance_def at_or_past_def Searcher_pull_def landed_def steady_def
          remaining_def skip_to_def ascending_def)
  next
    case (Some x)
    show ?thesis
    proof (cases "t \<le> fst x")
      case True
      then have "skip_to t (remaining c) = remaining c"
        using Some by (simp add: remaining_def skip_to_def)
      then show ?thesis using f Some True assms
        by (simp add: Searcher_Advance_def at_or_past_def landed_def remaining_def no_faults_id)
    next
      case False
      let ?c = "c\<lparr>faults := tl (faults c), upcoming := dropWhile (\<lambda>x. fst x < t) (upcoming c)\<rparr>"
      have sk: "skip_to t (remaining c) = upcoming ?c"
        using Some False by (simp add: remaining_def skip_to_def)
      have "ascending (remaining c)" using assms by (simp add: steady_def)
      then have asc: "ascending (upcoming ?c)"
        using ascending_skip[of "remaining c" t] sk by simp
      have "landed (upcoming ?c) ?c (Searcher_pull ?c ctx)"
        by (rule pull_landed) (use f asc in auto)
      then show ?thesis using f Some False sk
        by (simp add: Searcher_Advance_def at_or_past_def landed_def split: prod.splits sum.splits)
    qed
  qed
qed


subsection \<open>States of a searcher over well-behaved children\<close>

definition rest_of :: "clause \<Rightarrow> 'i BooleanSearcher \<Rightarrow> ('i \<times> float64) list" where
  "rest_of cl s = (case searcherOf cl s of None \<Rightarrow> [] | Some c \<Rightarrow> remaining c)"

definition linked :: "clause \<Rightarrow> 'i::linorder BooleanSearcher \<Rightarrow> bool" where
  "linked cl s =
     (case searcherOf cl s of
        None \<Rightarrow> currOf cl s = None
      | Some c \<Rightarrow> steady c \<and> map_option item (currOf cl s) = first (remaining c))"

definition coherent :: "'i::linorder BooleanSearcher \<Rightarrow> bool" where
  "coherent s =
     (linked Must s \<and> linked Should s \<and> linked MustNot s \<and> currentID s = drivingID s)"

definition shape ::
  "'i BooleanSearcher \<Rightarrow> bool \<times> bool \<times> bool \<times> int option \<times> ConjunctionQueryScorer" where
  "shape s =
     (mustSearcher s = None, shouldSearcher s = None, mustNotSearcher s = None,
      map_option min_required (shouldSearcher s), scorer s)"

definition absD :: "'i BooleanSearcher \<Rightarrow> ('i \<times> float64) list" where
  "absD s = (if mustSearcher s \<noteq> None then rest_of Must s else rest_of Should s)"

definition absS :: "'i BooleanSearcher \<Rightarrow> ('i \<times> float64) list" where
  "absS s = (if mustSearcher s \<noteq> None then rest_of Should s else [])"

definition absN :: "'i BooleanSearcher \<Rightarrow> ('i \<times> float64) list" where
  "absN s = rest_of MustNot s"

definition nearly :: "'i::linorder BooleanSearcher \<Rightarrow> bool" where
  "nearly s =
     (case mustSearcher s of
        Some c \<Rightarrow> steady c \<and> linked Should s \<and> linked MustNot s
      | None \<Rightarrow>
          currMust s = None \<and>
          (case shouldSearcher s of Some c \<Rightarrow> steady c \<and> linked MustNot s | None \<Rightarrow> False))"

lemma assign_fields [simp]:
  "mustSearcher (assign cl c d s) = (if cl = Must then Some c else mustSearcher s)"
  "shouldSearcher (assign cl c d s) = (if cl = Should then Some c else shouldSearcher s)"
  "mustNotSearcher (assign cl c d s) = (if cl = MustNot then Some c else mustNotSearcher s)"
  "currMust (assign cl c d s) = (if cl = Must then d else currMust s)"
  "currShould (assign cl c d s) = (if cl = Should then d else currShould s)"
  "currMustNot (assign cl c d s) = (if cl = MustNot then d else currMustNot s)"
  "currentID (assign cl c d s) = currentID s"
  "scorer (assign cl c d s) = scorer s"
  "queryNorm (assign cl c d s) = queryNorm s"
  "initialized (assign cl c d s) = initialized s"
  by (cases cl; simp)+

declare assign.simps [simp del]

lemma searcherOf_assign [simp]:
  "searcherOf cl' (assign cl c d s) = (if cl' = cl then Some c else searcherOf cl' s)"
  by (cases cl; cases cl') auto

lemma currOf_assign [simp]:
  "currOf cl' (assign cl c d s) = (if cl' = cl then d else currOf cl' s)"
  by (cases cl; cases cl') auto

lemma rest_of_assign [simp]:
  "rest_of cl' (assign cl c d s) = (if cl' = cl then remaining c else rest_of cl' s)"
  by (cases cl; cases cl') (simp_all add: rest_of_def split: option.splits)

lemma linked_assign [simp]:
  "linked cl' (assign cl c d s)
     = (if cl' = cl then steady c \<and> map_option item d = first (remaining c) else linked cl' s)"
  by (cases cl; cases cl') (simp_all add: linked_def split: option.splits)

lemma shape_assign:
  "searcherOf cl s = Some c \<Longrightarrow> min_required c' = min_required c
     \<Longrightarrow> shape (assign cl c' d s) = shape s"
  by (cases cl) (auto simp: shape_def)

lemma call_child_landed:
  assumes "searcherOf cl s = Some c" and "landed xs c (op c ctx)"
  shows "\<exists>d c' ctx'. call_child cl op s ctx = (None, assign cl c' d s, ctx')
    \<and> steady c' \<and> remaining c' = xs \<and> map_option item d = first xs
    \<and> min_required c' = min_required c"
proof -
  obtain r c' ctx' where op: "op c ctx = (r, c', ctx')" by (cases "op c ctx") auto
  with assms(2) obtain d where r: "r = Inr d" by (cases r) (auto simp: landed_def)
  have "call_child cl op s ctx = (None, assign cl c' d s, ctx')"
    using assms(1) op r by (simp add: call_child_def)
  moreover have "steady c' \<and> remaining c' = xs \<and> map_option item d = first xs
    \<and> min_required c' = min_required c"
    using assms(2) op r by (simp add: landed_def)
  ultimately show ?thesis by blast
qed

lemma linked_first:
  "linked cl s \<Longrightarrow> map_option item (currOf cl s) = first (rest_of cl s)"
  by (auto simp: linked_def rest_of_def split: option.splits)

lemma drivingID_coherent:
  assumes "linked Must s" and "linked Should s"
  shows "drivingID s = map_option fst (first (absD s))"
proof (cases "mustSearcher s")
  case None
  have "map_option fst (map_option item (currShould s)) = map_option IndexInternalID (currShould s)"
    by (cases "currShould s") (auto simp: item_def)
  then show ?thesis
    using None linked_first[OF assms(2)] by (auto simp: drivingID_def absD_def)
next
  case (Some c)
  have "map_option fst (map_option item (currMust s)) = map_option IndexInternalID (currMust s)"
    by (cases "currMust s") (auto simp: item_def)
  then show ?thesis
    using Some linked_first[OF assms(1)] by (auto simp: drivingID_def absD_def)
qed

lemma coherent_nearly:
  assumes "coherent s" and "currentID s \<noteq> None"
  shows "nearly s"
proof (cases "mustSearcher s")
  case None
  have cm: "currMust s = None" using assms(1) None by (simp add: coherent_def linked_def)
  have "currShould s \<noteq> None"
    using assms None by (auto simp: coherent_def drivingID_def split: if_splits)
  then have "shouldSearcher s \<noteq> None"
    using assms(1) by (auto simp: coherent_def linked_def split: option.splits)
  then show ?thesis using assms(1) None cm
    by (auto simp: nearly_def coherent_def linked_def)
next
  case (Some c)
  then show ?thesis using assms(1) by (auto simp: nearly_def coherent_def linked_def)
qed

lemma nearly_slot [simp]:
  "mustSearcher s \<noteq> None \<Longrightarrow> nearly (s\<lparr>currMust := v\<rparr>) = nearly s"
  "mustSearcher s = None \<Longrightarrow> currMust s = None \<Longrightarrow> nearly (s\<lparr>currShould := v\<rparr>) = nearly s"
  by (auto simp: nearly_def linked_def split: option.splits)

lemma rest_of_slot [simp]:
  "rest_of cl (s\<lparr>currentID := w\<rparr>) = rest_of cl s"
  "rest_of cl (s\<lparr>currMust := v\<rparr>) = rest_of cl s"
  "rest_of cl (s\<lparr>currShould := v\<rparr>) = rest_of cl s"
  "rest_of cl (s\<lparr>currMustNot := v\<rparr>) = rest_of cl s"
  by (cases cl; simp add: rest_of_def)+

lemma abs_slot [simp]:
  "absD (s\<lparr>currMust := v\<rparr>) = absD s" "absS (s\<lparr>currMust := v\<rparr>) = absS s"
  "absN (s\<lparr>currMust := v\<rparr>) = absN s" "shape (s\<lparr>currMust := v\<rparr>) = shape s"
  "absD (s\<lparr>currShould := v\<rparr>) = absD s" "absS (s\<lparr>currShould := v\<rparr>) = absS s"
  "absN (s\<lparr>currShould := v\<rparr>) = absN s" "shape (s\<lparr>currShould := v\<rparr>) = shape s"
  "absD (s\<lparr>currentID := w\<rparr>) = absD s" "absS (s\<lparr>currentID := w\<rparr>) = absS s"
  "absN (s\<lparr>currentID := w\<rparr>) = absN s" "shape (s\<lparr>currentID := w\<rparr>) = shape s"
  by (simp_all add: absD_def absS_def absN_def rest_of_def shape_def)

lemma linked_currentID [simp]: "linked cl (s\<lparr>currentID := w\<rparr>) = linked cl s"
  by (cases cl) (simp_all add: linked_def split: option.splits)

lemma drivingID_currentID [simp]: "drivingID (s\<lparr>currentID := w\<rparr>) = drivingID s"
  by (simp add: drivingID_def)

lemma linked_initialized [simp]: "linked cl (s\<lparr>initialized := b\<rparr>) = linked cl s"
  by (cases cl) (simp_all add: linked_def split: option.splits)

lemma coherent_initialized [simp]: "coherent (s\<lparr>initialized := b\<rparr>) = coherent s"
  by (simp add: coherent_def drivingID_def)

lemma coherent_refresh:
  "linked Must s \<Longrightarrow> linked Should s \<Longrightarrow> linked MustNot s
     \<Longrightarrow> coherent (s\<lparr>currentID := drivingID s\<rparr>)"
  by (simp add: coherent_def)

lemma advanceNextMust_nearly:
  assumes "nearly s"
  obtains s' ctx' where "advanceNextMust s ctx skip = (None, s', ctx')"
    and "coherent s'" and "shape s' = shape s"
    and "absD s' = tl (absD s)" and "absS s' = absS s" and "absN s' = absN s"
proof (cases "mustSearcher s")
  case None
  from assms None obtain c where sh: "shouldSearcher s = Some c" and st: "steady c"
    and ln: "linked MustNot s" and cm: "currMust s = None"
    by (auto simp: nearly_def split: option.splits)
  let ?ctx = "if map_option handle (currShould s) \<noteq> map_option handle skip
              then Pool_Put ctx (currShould s) else ctx"
  have "searcherOf Should s = Some c" using sh by simp
  from call_child_landed[where op = Searcher_Next and ctx = ?ctx, OF this Next_steady[OF st]]
  obtain d c' ctx' where cc: "call_child Should Searcher_Next s ?ctx = (None, assign Should c' d s, ctx')"
    and c': "steady c'" "remaining c' = tl (remaining c)" "map_option item d = first (tl (remaining c))"
    "min_required c' = min_required c"
    by blast
  let ?s1 = "assign Should c' d s"
  have lm: "linked Must ?s1" using None cm by (simp add: linked_def)
  have l1: "linked Should ?s1" "linked MustNot ?s1" using c' ln by simp_all
  have a: "advanceNextMust s ctx skip = (None, ?s1\<lparr>currentID := drivingID ?s1\<rparr>, ctx')"
    using None cc by (simp add: advanceNextMust_def and_then_def)
  show thesis
  proof (rule that[OF a])
    show "coherent (?s1\<lparr>currentID := drivingID ?s1\<rparr>)"
      using coherent_refresh[OF lm l1] .
    show "shape (?s1\<lparr>currentID := drivingID ?s1\<rparr>) = shape s"
      using shape_assign[of Should s c c' d] sh c'(4) by simp
    show "absD (?s1\<lparr>currentID := drivingID ?s1\<rparr>) = tl (absD s)"
      using None sh c'(2) by (simp add: absD_def rest_of_def)
    show "absS (?s1\<lparr>currentID := drivingID ?s1\<rparr>) = absS s"
      using None by (simp add: absS_def)
    show "absN (?s1\<lparr>currentID := drivingID ?s1\<rparr>) = absN s"
      by (simp add: absN_def)
  qed
next
  case (Some c)
  from assms Some have st: "steady c" and ls: "linked Should s" and ln: "linked MustNot s"
    by (auto simp: nearly_def)
  let ?ctx = "if map_option handle (currMust s) \<noteq> map_option handle skip
              then Pool_Put ctx (currMust s) else ctx"
  have "searcherOf Must s = Some c" using Some by simp
  from call_child_landed[where op = Searcher_Next and ctx = ?ctx, OF this Next_steady[OF st]]
  obtain d c' ctx' where cc: "call_child Must Searcher_Next s ?ctx = (None, assign Must c' d s, ctx')"
    and c': "steady c'" "remaining c' = tl (remaining c)" "map_option item d = first (tl (remaining c))"
    "min_required c' = min_required c"
    by blast
  let ?s1 = "assign Must c' d s"
  have l1: "linked Must ?s1" "linked Should ?s1" "linked MustNot ?s1" using c' ls ln by simp_all
  have a: "advanceNextMust s ctx skip = (None, ?s1\<lparr>currentID := drivingID ?s1\<rparr>, ctx')"
    using Some cc by (simp add: advanceNextMust_def and_then_def)
  show thesis
  proof (rule that[OF a])
    show "coherent (?s1\<lparr>currentID := drivingID ?s1\<rparr>)"
      using coherent_refresh[OF l1] .
    show "shape (?s1\<lparr>currentID := drivingID ?s1\<rparr>) = shape s"
      using shape_assign[of Must s c c' d] Some c'(4) by simp
    show "absD (?s1\<lparr>currentID := drivingID ?s1\<rparr>) = tl (absD s)"
      using Some c'(2) by (simp add: absD_def rest_of_def)
    show "absS (?s1\<lparr>currentID := drivingID ?s1\<rparr>) = absS s"
      using Some by (simp add: absS_def)
    show "absN (?s1\<lparr>currentID := drivingID ?s1\<rparr>) = absN s"
      by (simp add: absN_def)
  qed
qed


subsection \<open>One iteration of the loop over well-behaved children\<close>

definition qualify ::
  "bool \<Rightarrow> bool \<Rightarrow> (float64 list \<Rightarrow> float64) \<Rightarrow> 'i \<times> float64 \<Rightarrow> ('i \<times> float64) list
     \<Rightarrow> ('i \<times> float64) option" where
  "qualify has_must optional f d S =
     (if has_must then
        (if at_head (fst d) S then Some (fst d, f [snd d, snd (hd S)])
         else if optional then Some (fst d, f [snd d])
         else None)
      else Some (fst d, f [snd d]))"

definition optional :: "'i BooleanSearcher \<Rightarrow> bool" where
  "optional s = (shouldSearcher s = None \<or> map_option min_required (shouldSearcher s) = Some 0)"

definition rule_of :: "'i BooleanSearcher \<Rightarrow> 'i \<times> float64 \<Rightarrow> ('i \<times> float64) list \<Rightarrow> ('i \<times> float64) option" where
  "rule_of s = qualify (mustSearcher s \<noteq> None) (optional s) (combine (scorer s))"

definition arrives ::
  "('i \<times> float64) list \<Rightarrow> ('i \<times> float64) list \<Rightarrow> ('i \<times> float64) list
     \<Rightarrow> 'i::linorder BooleanSearcher \<Rightarrow> 'i BooleanSearcher \<Rightarrow> bool" where
  "arrives D S N s s' =
     (coherent s' \<and> shape s' = shape s \<and> absD s' = D \<and> absS s' = S \<and> absN s' = N)"

lemma rule_of_shape: "shape s' = shape s \<Longrightarrow> rule_of s' = rule_of s"
  by (auto simp: rule_of_def optional_def shape_def)

lemma slot_before:
  "map_option item m = first xs \<Longrightarrow> id_before m t = (case xs of [] \<Rightarrow> False | x # ys \<Rightarrow> fst x < t)"
  by (cases m; cases xs) (auto simp: id_before_def item_def)

lemma slot_equals:
  "map_option item m = first xs \<Longrightarrow> id_equals m t = at_head t xs"
  by (cases m; cases xs) (auto simp: id_equals_def at_head_def item_def)

lemma skip_to_noop:
  "\<not> (case xs of [] \<Rightarrow> False | x # ys \<Rightarrow> fst x < t) \<Longrightarrow> skip_to t xs = xs"
  by (cases xs) (auto simp: skip_to_def)

lemma reject_nearly:
  assumes "nearly s"
  shows "\<exists>s' ctx'. reject s ctx = (Continue, s', ctx') \<and> arrives (tl (absD s)) (absS s) (absN s) s s'"
proof -
  from advanceNextMust_nearly[OF assms, of ctx None]
  obtain s' ctx' where "advanceNextMust s ctx None = (None, s', ctx')"
    and "coherent s'" "shape s' = shape s" "absD s' = tl (absD s)" "absS s' = absS s" "absN s' = absN s"
    by blast
  then show ?thesis by (simp add: reject_def arrives_def)
qed

lemma drivingID_assign:
  "drivingID (assign MustNot c d s) = drivingID s"
  "mustSearcher s \<noteq> None \<Longrightarrow> drivingID (assign Should c d s) = drivingID s"
  by (auto simp: drivingID_def)

lemma coherent_assign_MustNot:
  assumes "coherent s" and "steady c'" and "map_option item d = first (remaining c')"
  shows "coherent (assign MustNot c' d s)"
  using assms by (simp add: coherent_def drivingID_assign)

lemma coherent_assign_Should:
  assumes "coherent s" and "mustSearcher s \<noteq> None"
    and "steady c'" and "map_option item d = first (remaining c')"
  shows "coherent (assign Should c' d s)"
  using assms by (simp add: coherent_def drivingID_assign)

lemma exclusion_coherent:
  assumes "coherent s" and "currentID s = Some cid"
  shows "\<exists>f s' ctx'. exclusion cid s ctx = (f, s', ctx') \<and>
     (if at_head cid (skip_to cid (absN s))
      then f = Continue \<and> arrives (tl (absD s)) (absS s) (skip_to cid (absN s)) s s'
      else f = Fallthrough \<and> currentID s' = Some cid
           \<and> arrives (absD s) (absS s) (skip_to cid (absN s)) s s')"
proof -
  have ln: "linked MustNot s" using assms(1) by (simp add: coherent_def)
  have fst: "map_option item (currMustNot s) = first (absN s)"
    using linked_first[OF ln] by (simp add: absN_def)
  show ?thesis
  proof (cases "id_before (currMustNot s) cid")
    case True
    then have "currMustNot s \<noteq> None" by (auto simp: id_before_def split: option.splits)
    then obtain c where c: "mustNotSearcher s = Some c" and st: "steady c"
      using ln by (auto simp: linked_def split: option.splits)
    let ?ctx = "if currMustNot s \<noteq> None then Pool_Put ctx (currMustNot s) else ctx"
    have "searcherOf MustNot s = Some c" using c by simp
    from call_child_landed[where op = "\<lambda>c ctx. Searcher_Advance c ctx cid" and ctx = ?ctx,
        OF this Advance_steady[OF st]]
    obtain d c' ctx' where cc: "call_child MustNot (\<lambda>c ctx. Searcher_Advance c ctx cid) s ?ctx
        = (None, assign MustNot c' d s, ctx')"
      and c': "steady c'" "remaining c' = skip_to cid (remaining c)"
        "map_option item d = first (skip_to cid (remaining c))" "min_required c' = min_required c"
      by blast
    let ?s1 = "assign MustNot c' d s"
    have N: "absN s = remaining c" using c by (simp add: absN_def rest_of_def)
    have co1: "coherent ?s1" using coherent_assign_MustNot[OF assms(1) c'(1)] c'(2,3) by simp
    have sh1: "shape ?s1 = shape s" using shape_assign[of MustNot s c c' d] c c'(4) by simp
    have ar1: "arrives (absD s) (absS s) (skip_to cid (absN s)) s ?s1"
      using co1 sh1 c'(2) N by (simp add: arrives_def absD_def absS_def absN_def)
    have eq: "id_equals (currMustNot ?s1) cid = at_head cid (skip_to cid (absN s))"
      using slot_equals[OF c'(3)] N by simp
    show ?thesis
    proof (cases "at_head cid (skip_to cid (absN s))")
      case h: True
      have "nearly ?s1" using coherent_nearly[OF co1] assms(2) by simp
      from reject_nearly[OF this, of ctx']
      obtain s' ctx'' where "reject ?s1 ctx' = (Continue, s', ctx'')"
        and "arrives (tl (absD ?s1)) (absS ?s1) (absN ?s1) ?s1 s'" by blast
      then show ?thesis using True cc eq h ar1
        by (auto simp: exclusion_def arrives_def)
    next
      case h: False
      then show ?thesis using True cc eq ar1 assms(2)
        by (auto simp: exclusion_def)
    qed
  next
    case False
    then have noop: "skip_to cid (absN s) = absN s"
      using slot_before[OF fst, of cid] skip_to_noop[where xs = "absN s" and t = cid] by simp
    have eq: "id_equals (currMustNot s) cid = at_head cid (absN s)"
      using slot_equals[OF fst] .
    show ?thesis
    proof (cases "at_head cid (absN s)")
      case h: True
      have "nearly s" using coherent_nearly[OF assms(1)] assms(2) by simp
      from reject_nearly[OF this, of ctx]
      obtain s' ctx'' where "reject s ctx = (Continue, s', ctx'')"
        and "arrives (tl (absD s)) (absS s) (absN s) s s'" by blast
      then show ?thesis using False eq h noop by (auto simp: exclusion_def)
    next
      case h: False
      then show ?thesis using False eq noop assms
        by (auto simp: exclusion_def arrives_def)
    qed
  qed
qed


lemma Scorer_Score_one:
  "Scorer_Score sc [Some m] = Inr (m\<lparr>Score := combine sc [Score m]\<rparr>)"
  by (simp add: Scorer_Score_def)

lemma Scorer_Score_two:
  "Scorer_Score sc [Some m, Some x] = Inr (m\<lparr>Score := combine sc [Score m, Score x]\<rparr>)"
  by (simp add: Scorer_Score_def)

lemma arrives_via:
  "arrives D S N s1 s' \<Longrightarrow> shape s1 = shape s \<Longrightarrow> arrives D S N s s'"
  by (simp add: arrives_def)

lemma emit_nearly:
  assumes "nearly s" and "Scorer_Score (scorer s) cons = Inr rv"
    and "cl = (if mustSearcher s \<noteq> None then Must else Should)"
  shows "\<exists>s' ctx'. emit cl cons s ctx = (Break rv, s', ctx')
           \<and> arrives (tl (absD s)) (absS s) (absN s) s s'"
proof -
  let ?s1 = "case cl of Must \<Rightarrow> s\<lparr>currMust := Some rv\<rparr> | Should \<Rightarrow> s\<lparr>currShould := Some rv\<rparr>
              | MustNot \<Rightarrow> s"
  have cm: "mustSearcher s = None \<Longrightarrow> currMust s = None"
    using assms(1) by (auto simp: nearly_def)
  have n1: "nearly ?s1" using assms(1,3) cm by (cases "mustSearcher s") auto
  have ab: "absD ?s1 = absD s" "absS ?s1 = absS s" "absN ?s1 = absN s" "shape ?s1 = shape s"
    using assms(3) by (cases "mustSearcher s"; simp)+
  from advanceNextMust_nearly[OF n1, of ctx "Some rv"]
  obtain s' ctx' where a: "advanceNextMust ?s1 ctx (Some rv) = (None, s', ctx')"
    and r: "coherent s'" "shape s' = shape ?s1" "absD s' = tl (absD ?s1)" "absS s' = absS ?s1"
      "absN s' = absN ?s1"
    by blast
  have "emit cl cons s ctx = (Break rv, s', ctx')"
    using assms(2) a by (simp add: emit_def)
  then show ?thesis using r ab by (auto simp: arrives_def)
qed

lemma driver_head:
  assumes "coherent s" and "currentID s = Some cid"
  shows "\<exists>m d D'. absD s = d # D' \<and> fst d = cid \<and> item m = d
           \<and> (if mustSearcher s \<noteq> None then currMust s else currShould s) = Some m"
proof -
  have lm: "linked Must s" and ls: "linked Should s" using assms(1) by (simp_all add: coherent_def)
  have "map_option fst (first (absD s)) = Some cid"
    using drivingID_coherent[OF lm ls] assms by (simp add: coherent_def)
  then obtain d D' where D: "absD s = d # D'" and d: "fst d = cid"
    by (cases "absD s") auto
  have "map_option item (if mustSearcher s \<noteq> None then currMust s else currShould s) = first (absD s)"
    using linked_first[OF lm] linked_first[OF ls] by (simp add: absD_def)
  then show ?thesis using D d by auto
qed

lemma scoreBonus_must:
  assumes "coherent s" and "currentID s = Some cid" and "mustSearcher s \<noteq> None"
    and "at_head cid (absS s)"
  shows "\<exists>rv s' ctx'. scoreBonus s ctx = (Break rv, s', ctx')
           \<and> item rv = (cid, combine (scorer s) [snd (hd (absD s)), snd (hd (absS s))])
           \<and> arrives (tl (absD s)) (absS s) (absN s) s s'"
proof -
  from driver_head[OF assms(1,2)] assms(3)
  obtain m d D' where D: "absD s = d # D'" "fst d = cid" "item m = d" and m: "currMust s = Some m"
    by auto
  have ls: "linked Should s" using assms(1) by (simp add: coherent_def)
  have "map_option item (currShould s) = first (absS s)"
    using linked_first[OF ls] assms(3) by (simp add: absS_def)
  with assms(4) obtain x where x: "currShould s = Some x" "item x = hd (absS s)"
    by (cases "absS s"; cases "currShould s") (auto simp: at_head_def)
  let ?rv = "m\<lparr>Score := combine (scorer s) [Score m, Score x]\<rparr>"
  have sc: "Scorer_Score (scorer s) [currMust s, currShould s] = Inr ?rv"
    using m x by (simp add: Scorer_Score_two)
  from emit_nearly[OF coherent_nearly[OF assms(1)] sc, of Must ctx] assms(2,3)
  obtain s' ctx' where "emit Must [currMust s, currShould s] s ctx = (Break ?rv, s', ctx')"
    and "arrives (tl (absD s)) (absS s) (absN s) s s'" by auto
  moreover have "item ?rv = (cid, combine (scorer s) [snd (hd (absD s)), snd (hd (absS s))])"
    using D x(2)[symmetric] by (auto simp: item_def)
  ultimately show ?thesis using m by (auto simp: scoreBonus_def)
qed

lemma scoreBonus_should:
  assumes "coherent s" and "currentID s = Some cid" and "mustSearcher s = None"
  shows "\<exists>rv s' ctx'. scoreBonus s ctx = (Break rv, s', ctx')
           \<and> item rv = (cid, combine (scorer s) [snd (hd (absD s))])
           \<and> arrives (tl (absD s)) (absS s) (absN s) s s'"
proof -
  from driver_head[OF assms(1,2)] assms(3)
  obtain m d D' where D: "absD s = d # D'" "fst d = cid" "item m = d" and m: "currShould s = Some m"
    by auto
  have cm: "currMust s = None" using assms(1,3) by (simp add: coherent_def linked_def)
  let ?rv = "m\<lparr>Score := combine (scorer s) [Score m]\<rparr>"
  have sc: "Scorer_Score (scorer s) [currShould s] = Inr ?rv"
    using m by (simp add: Scorer_Score_one)
  from emit_nearly[OF coherent_nearly[OF assms(1)] sc, of Should ctx] assms(2,3)
  obtain s' ctx' where "emit Should [currShould s] s ctx = (Break ?rv, s', ctx')"
    and "arrives (tl (absD s)) (absS s) (absN s) s s'" by auto
  moreover have "item ?rv = (cid, combine (scorer s) [snd (hd (absD s))])"
    using D by (auto simp: item_def)
  ultimately show ?thesis using cm by (auto simp: scoreBonus_def)
qed

lemma scoreMustOnly_must:
  assumes "coherent s" and "currentID s = Some cid" and "mustSearcher s \<noteq> None"
  shows "\<exists>rv s' ctx'. scoreMustOnly s ctx = (Break rv, s', ctx')
           \<and> item rv = (cid, combine (scorer s) [snd (hd (absD s))])
           \<and> arrives (tl (absD s)) (absS s) (absN s) s s'"
proof -
  from driver_head[OF assms(1,2)] assms(3)
  obtain m d D' where D: "absD s = d # D'" "fst d = cid" "item m = d" and m: "currMust s = Some m"
    by auto
  let ?rv = "m\<lparr>Score := combine (scorer s) [Score m]\<rparr>"
  have sc: "Scorer_Score (scorer s) [currMust s] = Inr ?rv"
    using m by (simp add: Scorer_Score_one)
  from emit_nearly[OF coherent_nearly[OF assms(1)] sc, of Must ctx] assms(2,3)
  obtain s' ctx' where "emit Must [currMust s] s ctx = (Break ?rv, s', ctx')"
    and "arrives (tl (absD s)) (absS s) (absN s) s s'" by auto
  moreover have "item ?rv = (cid, combine (scorer s) [snd (hd (absD s))])"
    using D by (auto simp: item_def)
  ultimately show ?thesis by (auto simp: scoreMustOnly_def)
qed


lemma alignment_coherent:
  assumes "coherent s" and "currentID s = Some cid"
  shows "\<exists>f s' ctx'. alignment cid s ctx = (f, s', ctx') \<and>
     (case rule_of s (hd (absD s)) (skip_to cid (absS s)) of
        Some r \<Rightarrow> (\<exists>rv. f = Break rv \<and> item rv = r)
                  \<and> arrives (tl (absD s)) (skip_to cid (absS s)) (absN s) s s'
      | None \<Rightarrow> f = Fallthrough \<and> currentID s' = Some cid
                  \<and> arrives (absD s) (skip_to cid (absS s)) (absN s) s s')"
proof (cases "mustSearcher s")
  case None
  from driver_head[OF assms] None
  obtain m d D' where D: "absD s = d # D'" "fst d = cid" "item m = d" and m: "currShould s = Some m"
    by auto
  have nb: "\<not> id_before (currShould s) cid" and eq: "id_equals (currShould s) cid"
    using m D by (auto simp: id_before_def id_equals_def item_def)
  have S: "absS s = []" using None by (simp add: absS_def)
  from scoreBonus_should[OF assms None, of ctx]
  obtain rv s' ctx' where "scoreBonus s ctx = (Break rv, s', ctx')"
    and "item rv = (cid, combine (scorer s) [snd (hd (absD s))])"
    and "arrives (tl (absD s)) (absS s) (absN s) s s'" by blast
  then show ?thesis using nb eq None S D
    by (simp add: alignment_def rule_of_def qualify_def skip_to_def)
next
  case (Some cm)
  then have mp: "mustSearcher s \<noteq> None" by simp
  from driver_head[OF assms] mp
  obtain m d D' where D: "absD s = d # D'" "fst d = cid" "item m = d" and m: "currMust s = Some m"
    by auto
  have ls: "linked Should s" using assms(1) by (simp add: coherent_def)
  have fs: "map_option item (currShould s) = first (absS s)"
    using linked_first[OF ls] mp by (simp add: absS_def)
  have rule: "rule_of s d S' =
      (if at_head cid S' then Some (cid, combine (scorer s) [snd d, snd (hd S')])
       else if optional s then Some (cid, combine (scorer s) [snd d]) else None)" for S'
    using mp D(2) by (simp add: rule_of_def qualify_def)
  show ?thesis
  proof (cases "id_before (currShould s) cid")
    case True
    then have "currShould s \<noteq> None" by (auto simp: id_before_def split: option.splits)
    then obtain c where c: "shouldSearcher s = Some c" and st: "steady c"
      using ls by (auto simp: linked_def split: option.splits)
    let ?ctx = "if currShould s \<noteq> None then Pool_Put ctx (currShould s) else ctx"
    have "searcherOf Should s = Some c" using c by simp
    from call_child_landed[where op = "\<lambda>c ctx. Searcher_Advance c ctx cid" and ctx = ?ctx,
        OF this Advance_steady[OF st]]
    obtain d1 c' ctx1 where cc: "call_child Should (\<lambda>c ctx. Searcher_Advance c ctx cid) s ?ctx
        = (None, assign Should c' d1 s, ctx1)"
      and c': "steady c'" "remaining c' = skip_to cid (remaining c)"
        "map_option item d1 = first (skip_to cid (remaining c))" "min_required c' = min_required c"
      by blast
    let ?s1 = "assign Should c' d1 s"
    have S: "absS s = remaining c" using c mp by (simp add: absS_def rest_of_def)
    have co1: "coherent ?s1" using coherent_assign_Should[OF assms(1) mp c'(1)] c'(2,3) by simp
    have sh1: "shape ?s1 = shape s" using shape_assign[of Should s c c' d1] c c'(4) by simp
    have id1: "currentID ?s1 = Some cid" using assms(2) by simp
    have mp1: "mustSearcher ?s1 \<noteq> None" using mp by simp
    have ab1: "absD ?s1 = absD s" "absS ?s1 = skip_to cid (absS s)" "absN ?s1 = absN s"
      using mp c'(2) S by (simp_all add: absD_def absS_def absN_def)
    have ar1: "arrives (absD s) (skip_to cid (absS s)) (absN s) s ?s1"
      using co1 sh1 ab1 by (simp add: arrives_def)
    have eq: "id_equals (currShould ?s1) cid = at_head cid (skip_to cid (absS s))"
      using slot_equals[OF c'(3)] S by simp
    have sc1: "scorer ?s1 = scorer s" by simp
    have mn: "shouldMin ?s1 = Inr (min_required c)" using c'(4) by (simp add: shouldMin_def)
    have opt: "optional s = (min_required c = 0)" using c by (simp add: optional_def)
    show ?thesis
    proof (cases "at_head cid (skip_to cid (absS s))")
      case h: True
      from scoreBonus_must[OF co1 id1 mp1, of ctx1] h ab1
      obtain rv s' ctx' where "scoreBonus ?s1 ctx1 = (Break rv, s', ctx')"
        and "item rv = (cid, combine (scorer s) [snd (hd (absD s)), snd (hd (skip_to cid (absS s)))])"
        and "arrives (tl (absD s)) (skip_to cid (absS s)) (absN s) ?s1 s'"
        by (auto simp: sc1)
      then show ?thesis using True cc eq h rule[of "skip_to cid (absS s)"] D arrives_via[OF _ sh1]
        by (auto simp: alignment_def)
    next
      case h: False
      show ?thesis
      proof (cases "min_required c = 0")
        case z: True
        from scoreMustOnly_must[OF co1 id1 mp1, of ctx1] ab1
        obtain rv s' ctx' where "scoreMustOnly ?s1 ctx1 = (Break rv, s', ctx')"
          and "item rv = (cid, combine (scorer s) [snd (hd (absD s))])"
          and "arrives (tl (absD s)) (skip_to cid (absS s)) (absN s) ?s1 s'"
          by (auto simp: sc1)
        then show ?thesis
          using True cc eq h z mn opt rule[of "skip_to cid (absS s)"] D arrives_via[OF _ sh1]
          by (auto simp: alignment_def)
      next
        case z: False
        then show ?thesis
          using True cc eq h mn opt rule[of "skip_to cid (absS s)"] D ar1 id1
          by (auto simp: alignment_def)
      qed
    qed
  next
    case False
    then have noop: "skip_to cid (absS s) = absS s"
      using slot_before[OF fs, of cid] skip_to_noop[where xs = "absS s" and t = cid] by simp
    have eq: "id_equals (currShould s) cid = at_head cid (absS s)"
      using slot_equals[OF fs] .
    have ar0: "arrives (absD s) (absS s) (absN s) s s"
      using assms(1) by (simp add: arrives_def)
    show ?thesis
    proof (cases "at_head cid (absS s)")
      case h: True
      from scoreBonus_must[OF assms mp h, of ctx]
      obtain rv s' ctx' where "scoreBonus s ctx = (Break rv, s', ctx')"
        and "item rv = (cid, combine (scorer s) [snd (hd (absD s)), snd (hd (absS s))])"
        and "arrives (tl (absD s)) (absS s) (absN s) s s'"
        by blast
      then show ?thesis using False eq h noop rule[of "absS s"] D
        by (auto simp: alignment_def)
    next
      case h: False
      show ?thesis
      proof (cases "optional s")
        case o: True
        from scoreMustOnly_must[OF assms mp, of ctx]
        obtain rv s' ctx' where "scoreMustOnly s ctx = (Break rv, s', ctx')"
          and "item rv = (cid, combine (scorer s) [snd (hd (absD s))])"
          and "arrives (tl (absD s)) (absS s) (absN s) s s'"
          by blast
        then show ?thesis using False eq h noop o rule[of "absS s"] D
          by (auto simp: alignment_def optional_def shouldMin_def split: option.splits)
      next
        case o: False
        then show ?thesis using False eq h noop rule[of "absS s"] D ar0 assms(2)
          by (auto simp: alignment_def optional_def shouldMin_def split: option.splits)
      qed
    qed
  qed
qed


subsection \<open>The merge-join on lists\<close>

text \<open>
  What the loop of \<^verbatim>\<open>Next\<close> computes, on what the driving child (\<open>D\<close>), the
  should child (\<open>S\<close>, when there is a must child) and the must-not child (\<open>N\<close>)
  have left: the first result, if any, and what the children have left afterwards.
\<close>

fun scan ::
  "('i::linorder \<times> float64 \<Rightarrow> ('i \<times> float64) list \<Rightarrow> ('i \<times> float64) option)
     \<Rightarrow> ('i \<times> float64) list \<Rightarrow> ('i \<times> float64) list \<Rightarrow> ('i \<times> float64) list
     \<Rightarrow> ('i \<times> float64) option \<times> ('i \<times> float64) list \<times> ('i \<times> float64) list \<times> ('i \<times> float64) list" where
  "scan q [] S N = (None, [], S, N)"
| "scan q (d # D) S N =
     (if at_head (fst d) (skip_to (fst d) N) then scan q D S (skip_to (fst d) N)
      else (case q d (skip_to (fst d) S) of
              Some r \<Rightarrow> (Some r, D, skip_to (fst d) S, skip_to (fst d) N)
            | None \<Rightarrow> scan q D (skip_to (fst d) S) (skip_to (fst d) N)))"

definition view ::
  "'i BooleanSearcher \<Rightarrow> ('i \<times> float64) list \<times> ('i \<times> float64) list \<times> ('i \<times> float64) list" where
  "view s = (absD s, absS s, absN s)"

lemma view_fields [simp]:
  "view (s\<lparr>currentID := w\<rparr>) = view s"
  "view (s\<lparr>initialized := b\<rparr>) = view s"
  "shape (s\<lparr>initialized := b\<rparr>) = shape s"
  by (simp_all add: view_def absD_def absS_def absN_def rest_of_def shape_def)

lemma arrives_view: "arrives D S N s s' \<Longrightarrow> view s' = (D, S, N)"
  by (simp add: arrives_def view_def)

lemma Next_body_Continue:
  "exclusion cid s ctx = (Continue, s', ctx') \<Longrightarrow> Next_body cid s ctx = (Continue, s', ctx')"
  by (simp add: Next_body_def)

lemma Next_body_Fallthrough:
  "exclusion cid s ctx = (Fallthrough, s1, c1) \<Longrightarrow>
   Next_body cid s ctx =
     (case alignment cid s1 c1 of (Fallthrough, s2, c2) \<Rightarrow> reject s2 c2 | r \<Rightarrow> r)"
  by (simp add: Next_body_def)

lemma Next_loop_coherent:
  assumes "coherent s"
  shows "\<exists>r s' ctx'. Next_loop s ctx = (Inr r, s', ctx') \<and> coherent s' \<and> shape s' = shape s
           \<and> (map_option item r, view s') = scan (rule_of s) (absD s) (absS s) (absN s)"
  using assms
proof (induction "absD s" arbitrary: s ctx)
  case Nil
  have "currentID s = None"
    using drivingID_coherent[of s] Nil by (simp add: coherent_def)
  then show ?case using Nil by (simp add: Next_loop_exhausted view_def)
next
  case (Cons d D')
  have D: "absD s = d # D'" using Cons.hyps(2) by simp
  have cid: "currentID s = Some (fst d)"
    using drivingID_coherent[of s] Cons.prems D by (simp add: coherent_def)
  let ?cid = "fst d"
  let ?N' = "skip_to ?cid (absN s)"
  let ?S' = "skip_to ?cid (absS s)"
  from exclusion_coherent[OF Cons.prems cid, of ctx]
  obtain f1 s1 c1 where ex: "exclusion ?cid s ctx = (f1, s1, c1)"
    and ex_post: "if at_head ?cid ?N'
      then f1 = Continue \<and> arrives (tl (absD s)) (absS s) ?N' s s1
      else f1 = Fallthrough \<and> currentID s1 = Some ?cid \<and> arrives (absD s) (absS s) ?N' s s1"
    by blast
  show ?case
  proof (cases "at_head ?cid ?N'")
    case True
    then have f1: "f1 = Continue" and ar: "arrives D' (absS s) ?N' s s1"
      using ex_post D by simp_all
    have co1: "coherent s1" and sh1: "shape s1 = shape s" and v1: "absD s1 = D'" "absS s1 = absS s" "absN s1 = ?N'"
      using ar by (simp_all add: arrives_def)
    have step: "Next_loop s ctx = Next_loop s1 c1"
      using cid Next_body_Continue[OF ex[unfolded f1]] by (simp add: Next_loop_step)
    from Cons.hyps(1)[OF v1(1)[symmetric] co1, of c1]
    obtain r s' ctx' where "Next_loop s1 c1 = (Inr r, s', ctx')" "coherent s'" "shape s' = shape s1"
      "(map_option item r, view s') = scan (rule_of s1) (absD s1) (absS s1) (absN s1)"
      by blast
    then show ?thesis using step sh1 v1 True D rule_of_shape[OF sh1] by simp
  next
    case False
    then have f1: "f1 = Fallthrough" and id1: "currentID s1 = Some ?cid"
      and ar: "arrives (absD s) (absS s) ?N' s s1"
      using ex_post by simp_all
    have co1: "coherent s1" and sh1: "shape s1 = shape s"
      and v1: "absD s1 = d # D'" "absS s1 = absS s" "absN s1 = ?N'"
      using ar D by (simp_all add: arrives_def)
    from alignment_coherent[OF co1 id1, of c1]
    obtain f2 s2 c2 where al: "alignment ?cid s1 c1 = (f2, s2, c2)"
      and al_post: "case rule_of s1 (hd (absD s1)) (skip_to ?cid (absS s1)) of
        Some r \<Rightarrow> (\<exists>rv. f2 = Break rv \<and> item rv = r)
                  \<and> arrives (tl (absD s1)) (skip_to ?cid (absS s1)) (absN s1) s1 s2
      | None \<Rightarrow> f2 = Fallthrough \<and> currentID s2 = Some ?cid
                  \<and> arrives (absD s1) (skip_to ?cid (absS s1)) (absN s1) s1 s2"
      by blast
    have ru: "rule_of s1 = rule_of s" using rule_of_shape[OF sh1] .
    show ?thesis
    proof (cases "rule_of s d ?S'")
      case None
      then have f2: "f2 = Fallthrough" and id2: "currentID s2 = Some ?cid"
        and ar2: "arrives (d # D') ?S' ?N' s1 s2"
        using al_post v1 ru by simp_all
      have co2: "coherent s2" and sh2: "shape s2 = shape s1"
        and v2: "absD s2 = d # D'" "absS s2 = ?S'" "absN s2 = ?N'"
        using ar2 by (simp_all add: arrives_def)
      have "nearly s2" using coherent_nearly[OF co2] id2 by simp
      from reject_nearly[OF this, of c2]
      obtain s3 c3 where rj: "reject s2 c2 = (Continue, s3, c3)"
        and ar3: "arrives (tl (absD s2)) (absS s2) (absN s2) s2 s3" by blast
      have co3: "coherent s3" and sh3: "shape s3 = shape s2"
        and v3: "absD s3 = D'" "absS s3 = ?S'" "absN s3 = ?N'"
        using ar3 v2 by (simp_all add: arrives_def)
      have body: "Next_body ?cid s ctx = (Continue, s3, c3)"
        using Next_body_Fallthrough[OF ex[unfolded f1]] al f2 rj by simp
      have step: "Next_loop s ctx = Next_loop s3 c3"
        using cid body by (simp add: Next_loop_step)
      from Cons.hyps(1)[OF v3(1)[symmetric] co3, of c3]
      obtain r s' ctx' where "Next_loop s3 c3 = (Inr r, s', ctx')" "coherent s'" "shape s' = shape s3"
        "(map_option item r, view s') = scan (rule_of s3) (absD s3) (absS s3) (absN s3)"
        by blast
      moreover have "rule_of s3 = rule_of s"
        using rule_of_shape[of s3 s] sh3 sh2 sh1 by simp
      ultimately show ?thesis using step sh1 sh2 sh3 v3 False None D by simp
    next
      case (Some r)
      then obtain rv where f2: "f2 = Break rv" and rv: "item rv = r"
        and ar2: "arrives D' ?S' ?N' s1 s2"
        using al_post v1 ru by auto
      have body: "Next_body ?cid s ctx = (Break rv, s2, c2)"
        using Next_body_Fallthrough[OF ex[unfolded f1]] al f2 by simp
      have "Next_loop s ctx = (Inr (Some rv), s2, c2)"
        using cid body by (simp add: Next_loop_step)
      then show ?thesis using ar2 sh1 rv Some False D
        by (simp add: arrives_def view_def)
    qed
  qed
qed


subsection \<open>Next and Advance over well-behaved children\<close>

text \<open>
  A searcher is ready when its children never fail and emit strictly increasing
  streams, and it is either untouched since its construction or in a state that
  \<^verbatim>\<open>Next\<close> and \<^verbatim>\<open>Advance\<close> leave behind.
\<close>

definition unlinked :: "clause \<Rightarrow> 'i::linorder BooleanSearcher \<Rightarrow> bool" where
  "unlinked cl s =
     (currOf cl s = None \<and> (case searcherOf cl s of None \<Rightarrow> True | Some c \<Rightarrow> idle c))"

definition pristine :: "'i::linorder BooleanSearcher \<Rightarrow> bool" where
  "pristine s = (unlinked Must s \<and> unlinked Should s \<and> unlinked MustNot s)"

definition ready :: "'i::linorder BooleanSearcher \<Rightarrow> bool" where
  "ready s = (if initialized s then coherent s else pristine s)"

text \<open>What a block of \<^verbatim>\<open>initSearchers\<close> or \<^verbatim>\<open>Advance\<close> leaves untouched.\<close>

definition frame :: "clause \<Rightarrow> 'i BooleanSearcher \<Rightarrow> 'i BooleanSearcher \<Rightarrow> bool" where
  "frame cl s s' =
     ((\<forall>cl'. cl' \<noteq> cl \<longrightarrow> searcherOf cl' s' = searcherOf cl' s \<and> currOf cl' s' = currOf cl' s)
      \<and> shape s' = shape s \<and> initialized s' = initialized s \<and> currentID s' = currentID s)"

lemma frame_refl: "frame cl s s"
  by (simp add: frame_def)

lemma frame_assign:
  "searcherOf cl s = Some c \<Longrightarrow> min_required c' = min_required c \<Longrightarrow> frame cl s (assign cl c' d s)"
  by (simp add: frame_def shape_assign)

lemma frame_other:
  assumes "frame cl s s'" and "cl' \<noteq> cl"
  shows "linked cl' s' = linked cl' s" and "unlinked cl' s' = unlinked cl' s"
    and "rest_of cl' s' = rest_of cl' s"
  using assms by (simp_all add: frame_def linked_def unlinked_def rest_of_def split: option.splits)

lemma refill_linked:
  assumes "linked cl s"
  shows "\<exists>s' ctx'. refill cl (\<lambda>c ctx. Searcher_Advance c ctx X) s ctx = (None, s', ctx')
           \<and> linked cl s' \<and> rest_of cl s' = skip_to X (rest_of cl s) \<and> frame cl s s'"
proof (cases "searcherOf cl s")
  case None
  then show ?thesis using assms frame_refl[of cl s]
    by (simp add: refill_def rest_of_def skip_to_def)
next
  case (Some c)
  then have st: "steady c" using assms by (simp add: linked_def)
  let ?ctx = "if currOf cl s \<noteq> None then Pool_Put ctx (currOf cl s) else ctx"
  from call_child_landed[where op = "\<lambda>c ctx. Searcher_Advance c ctx X" and ctx = ?ctx,
      OF Some Advance_steady[OF st]]
  obtain d c' ctx' where cc: "call_child cl (\<lambda>c ctx. Searcher_Advance c ctx X) s ?ctx
      = (None, assign cl c' d s, ctx')"
    and c': "steady c'" "remaining c' = skip_to X (remaining c)"
      "map_option item d = first (skip_to X (remaining c))" "min_required c' = min_required c"
    by blast
  have "refill cl (\<lambda>c ctx. Searcher_Advance c ctx X) s ctx = (None, assign cl c' d s, ctx')"
    using Some cc by (simp add: refill_def)
  then show ?thesis using c' Some frame_assign[OF Some c'(4), of d]
    by (auto simp: rest_of_def)
qed

lemma refill_unlinked:
  assumes "unlinked cl s"
  shows "\<exists>s' ctx'. refill cl Searcher_Next s ctx = (None, s', ctx')
           \<and> linked cl s' \<and> rest_of cl s' = rest_of cl s \<and> frame cl s s'"
proof (cases "searcherOf cl s")
  case None
  then show ?thesis using assms frame_refl[of cl s]
    by (simp add: refill_def unlinked_def linked_def)
next
  case (Some c)
  then have st: "idle c" using assms by (simp add: unlinked_def)
  let ?ctx = "if currOf cl s \<noteq> None then Pool_Put ctx (currOf cl s) else ctx"
  from call_child_landed[where op = Searcher_Next and ctx = ?ctx, OF Some Next_idle[OF st]]
  obtain d c' ctx' where cc: "call_child cl Searcher_Next s ?ctx = (None, assign cl c' d s, ctx')"
    and c': "steady c'" "remaining c' = remaining c"
      "map_option item d = first (remaining c)" "min_required c' = min_required c"
    by blast
  have "refill cl Searcher_Next s ctx = (None, assign cl c' d s, ctx')"
    using Some cc by (simp add: refill_def)
  then show ?thesis using c' Some frame_assign[OF Some c'(4), of d]
    by (auto simp: rest_of_def)
qed

lemma view_rest:
  assumes "shape s' = shape s"
    and "rest_of Must s' = F (rest_of Must s)" and "rest_of Should s' = F (rest_of Should s)"
    and "rest_of MustNot s' = F (rest_of MustNot s)" and "F [] = []"
  shows "view s' = (F (absD s), F (absS s), F (absN s))"
proof -
  have "(mustSearcher s' = None) = (mustSearcher s = None)" using assms(1) by (simp add: shape_def)
  then show ?thesis using assms(2-) by (auto simp: view_def absD_def absS_def absN_def)
qed

lemma initSearchers_pristine:
  assumes "pristine s"
  shows "\<exists>s' ctx'. initSearchers s ctx = (None, s', ctx') \<and> coherent s' \<and> initialized s'
           \<and> shape s' = shape s \<and> view s' = view s"
proof -
  have u: "unlinked Must s" "unlinked Should s" "unlinked MustNot s"
    using assms by (simp_all add: pristine_def)
  from refill_unlinked[OF u(1), of ctx]
  obtain s1 c1 where r1: "refill Must Searcher_Next s ctx = (None, s1, c1)"
    and p1: "linked Must s1" "rest_of Must s1 = rest_of Must s" "frame Must s s1" by blast
  have u1: "unlinked Should s1" "unlinked MustNot s1"
    using frame_other(2)[OF p1(3)] u by simp_all
  from refill_unlinked[OF u1(1), of c1]
  obtain s2 c2 where r2: "refill Should Searcher_Next s1 c1 = (None, s2, c2)"
    and p2: "linked Should s2" "rest_of Should s2 = rest_of Should s1" "frame Should s1 s2" by blast
  have u2: "unlinked MustNot s2" "linked Must s2"
    using frame_other(2)[OF p2(3)] frame_other(1)[OF p2(3)] u1 p1 by simp_all
  from refill_unlinked[OF u2(1), of c2]
  obtain s3 c3 where r3: "refill MustNot Searcher_Next s2 c2 = (None, s3, c3)"
    and p3: "linked MustNot s3" "rest_of MustNot s3 = rest_of MustNot s2" "frame MustNot s2 s3" by blast
  have l3: "linked Must s3" "linked Should s3"
    using frame_other(1)[OF p3(3)] u2 p2 by simp_all
  let ?s' = "s3\<lparr>currentID := drivingID s3, initialized := True\<rparr>"
  have run: "initSearchers s ctx = (None, ?s', c3)"
    using r1 r2 r3 by (simp add: initSearchers_def and_then_def)
  have sh: "shape s3 = shape s" using p1(3) p2(3) p3(3) by (simp add: frame_def)
  have rs: "rest_of Must s3 = rest_of Must s" "rest_of Should s3 = rest_of Should s"
    "rest_of MustNot s3 = rest_of MustNot s"
    using frame_other(3)[OF p3(3)] frame_other(3)[OF p2(3)] frame_other(3)[OF p1(3)] p1(2) p2(2) p3(2)
    by simp_all
  have v: "view s3 = view s"
    using view_rest[where F = "\<lambda>x. x", OF sh] rs by (simp add: view_def)
  have co: "coherent (s3\<lparr>currentID := drivingID s3\<rparr>)"
    using coherent_refresh[OF l3 p3(1)] .
  have "coherent ?s'" using co by simp
  moreover have "shape ?s' = shape s" using sh by simp
  moreover have "view ?s' = view s" using v by simp
  ultimately show ?thesis using run by simp
qed


lemma reposition_coherent:
  assumes "coherent s"
  shows "\<exists>s' ctx'.
     and_then (refill Must (\<lambda>c ctx. Searcher_Advance c ctx X) s ctx) (\<lambda>s ctx.
     and_then (refill Should (\<lambda>c ctx. Searcher_Advance c ctx X) s ctx) (\<lambda>s ctx.
     and_then (refill MustNot (\<lambda>c ctx. Searcher_Advance c ctx X) s ctx) (\<lambda>s ctx.
       (None, s\<lparr>currentID := drivingID s\<rparr>, ctx)))) = (None, s', ctx')
     \<and> coherent s' \<and> shape s' = shape s \<and> initialized s' = initialized s
     \<and> view s' = (skip_to X (absD s), skip_to X (absS s), skip_to X (absN s))"
proof -
  have l: "linked Must s" "linked Should s" "linked MustNot s"
    using assms by (simp_all add: coherent_def)
  from refill_linked[OF l(1), of X ctx]
  obtain s1 c1 where r1: "refill Must (\<lambda>c ctx. Searcher_Advance c ctx X) s ctx = (None, s1, c1)"
    and p1: "linked Must s1" "rest_of Must s1 = skip_to X (rest_of Must s)" "frame Must s s1" by blast
  have l1: "linked Should s1" "linked MustNot s1"
    using frame_other(1)[OF p1(3)] l by simp_all
  from refill_linked[OF l1(1), of X c1]
  obtain s2 c2 where r2: "refill Should (\<lambda>c ctx. Searcher_Advance c ctx X) s1 c1 = (None, s2, c2)"
    and p2: "linked Should s2" "rest_of Should s2 = skip_to X (rest_of Should s1)" "frame Should s1 s2"
    by blast
  have l2: "linked MustNot s2" "linked Must s2"
    using frame_other(1)[OF p2(3)] l1 p1 by simp_all
  from refill_linked[OF l2(1), of X c2]
  obtain s3 c3 where r3: "refill MustNot (\<lambda>c ctx. Searcher_Advance c ctx X) s2 c2 = (None, s3, c3)"
    and p3: "linked MustNot s3" "rest_of MustNot s3 = skip_to X (rest_of MustNot s2)" "frame MustNot s2 s3"
    by blast
  have l3: "linked Must s3" "linked Should s3"
    using frame_other(1)[OF p3(3)] l2 p2 by simp_all
  let ?s' = "s3\<lparr>currentID := drivingID s3\<rparr>"
  have run: "and_then (refill Must (\<lambda>c ctx. Searcher_Advance c ctx X) s ctx) (\<lambda>s ctx.
     and_then (refill Should (\<lambda>c ctx. Searcher_Advance c ctx X) s ctx) (\<lambda>s ctx.
     and_then (refill MustNot (\<lambda>c ctx. Searcher_Advance c ctx X) s ctx) (\<lambda>s ctx.
       (None, s\<lparr>currentID := drivingID s\<rparr>, ctx)))) = (None, ?s', c3)"
    using r1 r2 r3 by (simp add: and_then_def)
  have sh: "shape s3 = shape s" and ini: "initialized s3 = initialized s"
    using p1(3) p2(3) p3(3) by (simp_all add: frame_def)
  have rs: "rest_of Must s3 = skip_to X (rest_of Must s)"
    "rest_of Should s3 = skip_to X (rest_of Should s)"
    "rest_of MustNot s3 = skip_to X (rest_of MustNot s)"
    using frame_other(3)[OF p3(3)] frame_other(3)[OF p2(3)] frame_other(3)[OF p1(3)] p1(2) p2(2) p3(2)
    by simp_all
  have v: "view s3 = (skip_to X (absD s), skip_to X (absS s), skip_to X (absN s))"
    using view_rest[where F = "skip_to X", OF sh rs] by (simp add: skip_to_def)
  have "coherent ?s'" using coherent_refresh[OF l3 p3(1)] .
  then show ?thesis using run sh ini v by simp
qed

lemma Next_ready:
  assumes "ready s"
  shows "\<exists>r s' ctx'. Next s ctx = (Inr r, s', ctx') \<and> coherent s' \<and> initialized s'
           \<and> shape s' = shape s
           \<and> (map_option item r, view s') = scan (rule_of s) (absD s) (absS s) (absN s)"
proof (cases "initialized s")
  case True
  then have co: "coherent s" using assms by (simp add: ready_def)
  from Next_loop_coherent[OF co, of ctx]
  obtain r s' ctx' where l: "Next_loop s ctx = (Inr r, s', ctx')" and "coherent s'" "shape s' = shape s"
    "(map_option item r, view s') = scan (rule_of s) (absD s) (absS s) (absN s)" by blast
  then show ?thesis using True Next_loop_static[OF l] by (simp add: Next_def)
next
  case False
  then have "pristine s" using assms by (simp add: ready_def)
  from initSearchers_pristine[OF this, of ctx]
  obtain s0 c0 where i: "initSearchers s ctx = (None, s0, c0)" and co: "coherent s0"
    and ini: "initialized s0" and sh: "shape s0 = shape s" and v: "view s0 = view s" by blast
  from Next_loop_coherent[OF co, of c0]
  obtain r s' ctx' where l: "Next_loop s0 c0 = (Inr r, s', ctx')" and "coherent s'" "shape s' = shape s0"
    "(map_option item r, view s') = scan (rule_of s0) (absD s0) (absS s0) (absN s0)" by blast
  then show ?thesis
    using False i ini sh v Next_loop_static[OF l] rule_of_shape[OF sh]
    by (simp add: Next_def view_def)
qed

lemma Advance_ready:
  assumes "ready s"
  shows "\<exists>r s' ctx'. Advance s ctx X = (Inr r, s', ctx') \<and> coherent s' \<and> initialized s'
           \<and> shape s' = shape s
           \<and> (map_option item r, view s')
               = scan (rule_of s) (skip_to X (absD s)) (skip_to X (absS s)) (skip_to X (absN s))"
proof -
  have "\<exists>s0 c0. (if \<not> initialized s then initSearchers s ctx else (None, s, ctx)) = (None, s0, c0)
          \<and> coherent s0 \<and> initialized s0 \<and> shape s0 = shape s \<and> view s0 = view s"
  proof (cases "initialized s")
    case True
    then show ?thesis using assms by (simp add: ready_def)
  next
    case False
    then have "pristine s" using assms by (simp add: ready_def)
    from initSearchers_pristine[OF this, of ctx] False show ?thesis by simp
  qed
  then obtain s0 c0 where
    i: "(if \<not> initialized s then initSearchers s ctx else (None, s, ctx)) = (None, s0, c0)"
    and co: "coherent s0" and ini: "initialized s0" and sh: "shape s0 = shape s"
    and v: "view s0 = view s" by blast
  from reposition_coherent[OF co, of X c0]
  obtain s1 c1 where rp:
    "and_then (refill Must (\<lambda>c ctx. Searcher_Advance c ctx X) s0 c0) (\<lambda>s ctx.
     and_then (refill Should (\<lambda>c ctx. Searcher_Advance c ctx X) s ctx) (\<lambda>s ctx.
     and_then (refill MustNot (\<lambda>c ctx. Searcher_Advance c ctx X) s ctx) (\<lambda>s ctx.
       (None, s\<lparr>currentID := drivingID s\<rparr>, ctx)))) = (None, s1, c1)"
    and co1: "coherent s1" and sh1: "shape s1 = shape s0" and ini1: "initialized s1 = initialized s0"
    and v1: "view s1 = (skip_to X (absD s0), skip_to X (absS s0), skip_to X (absN s0))" by blast
  have rd1: "ready s1" using co1 ini1 ini by (simp add: ready_def)
  from Next_ready[OF rd1, of c1]
  obtain r s' ctx' where n: "Next s1 c1 = (Inr r, s', ctx')" and "coherent s'" "initialized s'"
    "shape s' = shape s1"
    "(map_option item r, view s') = scan (rule_of s1) (absD s1) (absS s1) (absN s1)" by blast
  moreover have "Advance s ctx X = Next s1 c1"
    unfolding Advance_def i using rp by simp
  moreover have "rule_of s1 = rule_of s" using rule_of_shape[of s1 s] sh1 sh by simp
  ultimately show ?thesis using sh1 sh v1 v by (simp add: view_def)
qed


subsection \<open>Iterating the merge-join on lists\<close>

fun scan_all ::
  "('i::linorder \<times> float64 \<Rightarrow> ('i \<times> float64) list \<Rightarrow> ('i \<times> float64) option)
     \<Rightarrow> ('i \<times> float64) list \<Rightarrow> ('i \<times> float64) list \<Rightarrow> ('i \<times> float64) list
     \<Rightarrow> ('i \<times> float64) list" where
  "scan_all q [] S N = []"
| "scan_all q (d # D) S N =
     (if at_head (fst d) (skip_to (fst d) N) then scan_all q D S (skip_to (fst d) N)
      else (case q d (skip_to (fst d) S) of
              Some r \<Rightarrow> r # scan_all q D (skip_to (fst d) S) (skip_to (fst d) N)
            | None \<Rightarrow> scan_all q D (skip_to (fst d) S) (skip_to (fst d) N)))"

fun scan_until ::
  "'i \<Rightarrow> ('i::linorder \<times> float64 \<Rightarrow> ('i \<times> float64) list \<Rightarrow> ('i \<times> float64) option)
     \<Rightarrow> ('i \<times> float64) list \<Rightarrow> ('i \<times> float64) list \<Rightarrow> ('i \<times> float64) list
     \<Rightarrow> ('i \<times> float64) option" where
  "scan_until X q [] S N = None"
| "scan_until X q (d # D) S N =
     (if at_head (fst d) (skip_to (fst d) N) then scan_until X q D S (skip_to (fst d) N)
      else (case q d (skip_to (fst d) S) of
              Some r \<Rightarrow> if fst r < X then scan_until X q D (skip_to (fst d) S) (skip_to (fst d) N)
                        else Some r
            | None \<Rightarrow> scan_until X q D (skip_to (fst d) S) (skip_to (fst d) N)))"

lemma scan_None:
  "scan q D S N = (None, D', S', N') \<Longrightarrow> scan_all q D S N = [] \<and> scan_until X q D S N = None"
  by (induction q D S N rule: scan.induct) (auto split: if_splits option.splits)

lemma scan_Some:
  "scan q D S N = (Some r, D', S', N') \<Longrightarrow>
     length D' < length D
     \<and> scan_all q D S N = r # scan_all q D' S' N'
     \<and> scan_until X q D S N = (if fst r < X then scan_until X q D' S' N' else Some r)"
  by (induction q D S N rule: scan.induct) (auto split: if_splits option.splits)






lemma ascending_Cons: "ascending (d # D) \<Longrightarrow> ascending D"
  by (simp add: ascending_def)



lemma coherent_ready: "coherent s \<Longrightarrow> initialized s \<Longrightarrow> ready s"
  by (simp add: ready_def)

lemma drain_ready:
  assumes "ready s"
  shows "\<exists>rvs s' ctx'. drain s ctx = (rvs, None, s', ctx')
           \<and> map item rvs = scan_all (rule_of s) (absD s) (absS s) (absN s)"
  using assms
proof (induction "length (absD s)" arbitrary: s ctx rule: less_induct)
  case less
  from Next_ready[OF less.prems, of ctx]
  obtain r s1 c1 where n: "Next s ctx = (Inr r, s1, c1)" and co: "coherent s1" and ini: "initialized s1"
    and sh: "shape s1 = shape s"
    and sc: "(map_option item r, view s1) = scan (rule_of s) (absD s) (absS s) (absN s)" by blast
  show ?case
  proof (cases r)
    case None
    then have "scan (rule_of s) (absD s) (absS s) (absN s) = (None, absD s1, absS s1, absN s1)"
      using sc by (simp add: view_def)
    from scan_None[OF this] show ?thesis
      using n None by (simp add: drain.simps[of s ctx])
  next
    case (Some rv)
    then have "scan (rule_of s) (absD s) (absS s) (absN s) = (Some (item rv), absD s1, absS s1, absN s1)"
      using sc by (simp add: view_def)
    from scan_Some[OF this]
    have len: "length (absD s1) < length (absD s)"
      and all: "scan_all (rule_of s) (absD s) (absS s) (absN s)
                 = item rv # scan_all (rule_of s) (absD s1) (absS s1) (absN s1)"
      by simp_all
    from less.hyps[OF len coherent_ready[OF co ini], of c1]
    obtain rvs s' ctx' where d: "drain s1 c1 = (rvs, None, s', ctx')"
      and m: "map item rvs = scan_all (rule_of s1) (absD s1) (absS s1) (absN s1)" by blast
    show ?thesis
      using n Some d m all rule_of_shape[OF sh] by (simp add: drain.simps[of s ctx])
  qed
qed



lemma steady_ascending: "steady c \<Longrightarrow> ascending (remaining c)"
  by (simp add: steady_def)

lemma idle_ascending: "idle c \<Longrightarrow> ascending (remaining c)"
  by (simp add: idle_def remaining_def)

lemma ready_ascending:
  assumes "ready s"
  shows "ascending (rest_of cl s)"
proof (cases "searcherOf cl s")
  case None
  then show ?thesis by (simp add: rest_of_def ascending_def)
next
  case (Some c)
  have "steady c \<or> idle c"
  proof (cases "initialized s")
    case True
    then have "linked cl s" using assms by (cases cl) (simp_all add: ready_def coherent_def)
    then show ?thesis using Some by (simp add: linked_def)
  next
    case False
    then have "unlinked cl s" using assms by (cases cl) (simp_all add: ready_def pristine_def)
    then show ?thesis using Some by (simp add: unlinked_def)
  qed
  then show ?thesis using Some steady_ascending idle_ascending by (auto simp: rest_of_def)
qed

lemma ready_ascending_view:
  assumes "ready s"
  shows "ascending (absD s)" and "ascending (absS s)" and "ascending (absN s)"
  using ready_ascending[OF assms]
  by (simp_all add: absD_def absS_def absN_def ascending_def)

text \<open>
  The states a searcher can be in: built by the constructor from children that
  have not been pulled, never fail and emit strictly increasing streams, and then
  used through \<^verbatim>\<open>Next\<close> and \<^verbatim>\<open>Advance\<close> with any contexts and targets.
\<close>

definition fresh_child :: "'i::linorder Searcher option \<Rightarrow> bool" where
  "fresh_child c = (case c of None \<Rightarrow> True | Some c \<Rightarrow> idle c)"

inductive reachable :: "'i::linorder BooleanSearcher \<Rightarrow> bool" where
  built: "fresh_child must \<Longrightarrow> fresh_child should \<Longrightarrow> fresh_child mustNot
            \<Longrightarrow> reachable (NewBooleanSearcher f must should mustNot e)"
| after_Next: "reachable s \<Longrightarrow> Next s ctx = (r, s', ctx') \<Longrightarrow> reachable s'"
| after_Advance: "reachable s \<Longrightarrow> Advance s ctx X = (r, s', ctx') \<Longrightarrow> reachable s'"

lemma idle_norms: "idle c \<Longrightarrow> idle (c\<lparr>norms := ns\<rparr>)"
  by (simp add: idle_def)

lemma NewBooleanSearcher_ready:
  assumes "fresh_child must" and "fresh_child should" and "fresh_child mustNot"
  shows "ready (NewBooleanSearcher f must should mustNot e)"
  using assms
  by (cases must; cases should; cases mustNot)
     (simp_all add: NewBooleanSearcher_record ready_def pristine_def unlinked_def fresh_child_def
        idle_def)

lemma reachable_ready: "reachable s \<Longrightarrow> ready s"
proof (induction rule: reachable.induct)
  case (built must should mustNot f e)
  then show ?case by (rule NewBooleanSearcher_ready)
next
  case (after_Next s ctx r s' ctx')
  from Next_ready[OF after_Next.IH, of ctx] after_Next.hyps(2)
  show ?case by (auto intro: coherent_ready)
next
  case (after_Advance s ctx X r s' ctx')
  from Advance_ready[OF after_Advance.IH, of ctx X] after_Advance.hyps(2)
  show ?case by (auto intro: coherent_ready)
qed




subsection \<open>Which documents the merge-join emits\<close>

lemma at_head_skip_to:
  "ascending xs \<Longrightarrow> at_head t (skip_to t xs) = (t \<in> fst ` set xs)"
proof (induction xs)
  case Nil
  then show ?case by (simp add: at_head_def skip_to_def)
next
  case (Cons x xs)
  have asc: "ascending xs" using Cons.prems ascending_Cons by blast
  have gt: "\<forall>y \<in> set xs. fst x < fst y" using Cons.prems by (auto simp: ascending_def)
  show ?case
  proof (cases "fst x < t")
    case True
    then have "skip_to t (x # xs) = skip_to t xs" by (simp add: skip_to_def)
    then show ?thesis using Cons.IH[OF asc] True by auto
  next
    case False
    then have "skip_to t (x # xs) = x # xs" by (simp add: skip_to_def)
    then show ?thesis using False gt by (auto simp: at_head_def)
  qed
qed

lemma mem_skip_to:
  "t \<le> i \<Longrightarrow> (i \<in> fst ` set (skip_to t xs)) = (i \<in> fst ` set xs)"
  by (induction xs) (auto simp: skip_to_def)

definition admitted ::
  "bool \<Rightarrow> bool \<Rightarrow> ('i \<times> float64) list \<Rightarrow> ('i \<times> float64) list \<Rightarrow> 'i \<Rightarrow> bool" where
  "admitted has_must opt S N i =
     (i \<notin> fst ` set N \<and> (if has_must then opt \<or> i \<in> fst ` set S else True))"

lemma admitted_skip:
  "t \<le> i \<Longrightarrow> admitted hm opt (skip_to t S) (skip_to t N) i = admitted hm opt S N i"
  "t \<le> i \<Longrightarrow> admitted hm opt S (skip_to t N) i = admitted hm opt S N i"
  by (simp_all add: admitted_def mem_skip_to)

lemma scan_all_ids:
  assumes "ascending D" and "ascending S" and "ascending N"
  shows "map fst (scan_all (qualify hm opt f) D S N) = filter (admitted hm opt S N) (map fst D)"
  using assms
proof (induction D arbitrary: S N)
  case Nil
  then show ?case by simp
next
  case (Cons d D)
  let ?t = "fst d"
  have asc: "ascending D" using Cons.prems(1) ascending_Cons by blast
  have gt: "\<forall>i \<in> set (map fst D). ?t \<le> i" using Cons.prems(1) by (auto simp: ascending_def)
  have aS: "ascending (skip_to ?t S)" and aN: "ascending (skip_to ?t N)"
    using Cons.prems ascending_skip by blast+
  have hN: "at_head ?t (skip_to ?t N) = (?t \<in> fst ` set N)"
    using at_head_skip_to[OF Cons.prems(3)] .
  have hS: "at_head ?t (skip_to ?t S) = (?t \<in> fst ` set S)"
    using at_head_skip_to[OF Cons.prems(2)] .
  have f1: "filter (admitted hm opt S (skip_to ?t N)) (map fst D) = filter (admitted hm opt S N) (map fst D)"
  proof (rule filter_cong[OF refl])
    fix i assume "i \<in> set (map fst D)"
    then have "?t \<le> i" using gt by blast
    then show "admitted hm opt S (skip_to ?t N) i = admitted hm opt S N i"
      by (rule admitted_skip(2))
  qed
  have f2: "filter (admitted hm opt (skip_to ?t S) (skip_to ?t N)) (map fst D)
            = filter (admitted hm opt S N) (map fst D)"
  proof (rule filter_cong[OF refl])
    fix i assume "i \<in> set (map fst D)"
    then have "?t \<le> i" using gt by blast
    then show "admitted hm opt (skip_to ?t S) (skip_to ?t N) i = admitted hm opt S N i"
      by (rule admitted_skip(1))
  qed
  note IH1 = Cons.IH[OF asc Cons.prems(2) aN, unfolded f1]
  note IH2 = Cons.IH[OF asc aS aN, unfolded f2]
  show ?case
  proof (cases "?t \<in> fst ` set N")
    case True
    then have "\<not> admitted hm opt S N ?t" by (simp add: admitted_def)
    then show ?thesis using True hN IH1 by simp
  next
    case False
    show ?thesis
    proof (cases "qualify hm opt f d (skip_to ?t S)")
      case None
      then have "\<not> admitted hm opt S N ?t"
        using hS by (auto simp: qualify_def admitted_def split: if_splits)
      then show ?thesis using False hN None IH2 by simp
    next
      case (Some r)
      then have "admitted hm opt S N ?t" and "fst r = ?t"
        using hS False by (auto simp: qualify_def admitted_def split: if_splits)
      then show ?thesis using False hN Some IH2 by simp
    qed
  qed
qed

lemma ascending_filter:
  "ascending D \<Longrightarrow> sorted_wrt (<) (filter P (map fst D))"
  by (simp add: ascending_def sorted_wrt_filter)

lemma drain_ids:
  assumes "ready s"
  shows "\<exists>rvs s' ctx'. drain s ctx = (rvs, None, s', ctx')
     \<and> map IndexInternalID rvs
         = filter (admitted (mustSearcher s \<noteq> None) (optional s) (absS s) (absN s)) (map fst (absD s))"
proof -
  from drain_ready[OF assms, of ctx]
  obtain rvs s' ctx' where d: "drain s ctx = (rvs, None, s', ctx')"
    and m: "map item rvs = scan_all (rule_of s) (absD s) (absS s) (absN s)" by blast
  have "map IndexInternalID rvs = map fst (map item rvs)" by (simp add: item_def)
  also have "\<dots> = filter (admitted (mustSearcher s \<noteq> None) (optional s) (absS s) (absN s)) (map fst (absD s))"
    unfolding m rule_of_def
    by (rule scan_all_ids[OF ready_ascending_view[OF assms]])
  finally show ?thesis using d by blast
qed

text \<open>
  Claim C2. From every state that a searcher over children with strictly
  increasing streams can reach, the results of successive \<^verbatim>\<open>Next\<close> calls,
  up to the end of the stream, have strictly increasing identifiers, so no
  identifier comes twice; and the iteration ends with end-of-stream, not an error.
\<close>

theorem results_strictly_increasing:
  assumes "reachable s"
  shows "sorted_wrt (<) (map IndexInternalID (fst (drain s ctx)))
       \<and> distinct (map IndexInternalID (fst (drain s ctx)))
       \<and> fst (snd (drain s ctx)) = None"
proof -
  have rd: "ready s" using reachable_ready[OF assms] .
  from drain_ids[OF rd, of ctx]
  obtain rvs s' ctx' where d: "drain s ctx = (rvs, None, s', ctx')"
    and m: "map IndexInternalID rvs
         = filter (admitted (mustSearcher s \<noteq> None) (optional s) (absS s) (absN s)) (map fst (absD s))"
    by blast
  have "sorted_wrt (<) (map IndexInternalID rvs)"
    unfolding m using ascending_filter[OF ready_ascending_view(1)[OF rd]] .
  then show ?thesis using d strict_sorted_iff[of "map IndexInternalID rvs"] by simp
qed


subsection \<open>A newly built searcher\<close>

text \<open>The stream that a child given to the constructor will emit.\<close>

definition stream :: "'i Searcher option \<Rightarrow> ('i \<times> float64) list" where
  "stream c = (case c of None \<Rightarrow> [] | Some c \<Rightarrow> upcoming c)"

lemma New_view:
  assumes "fresh_child must" and "fresh_child should" and "fresh_child mustNot"
  shows "absD (NewBooleanSearcher f must should mustNot e) = stream (if must \<noteq> None then must else should)"
    and "absS (NewBooleanSearcher f must should mustNot e) = (if must \<noteq> None then stream should else [])"
    and "absN (NewBooleanSearcher f must should mustNot e) = stream mustNot"
  using assms
  by (cases must; cases should; cases mustNot;
      simp add: NewBooleanSearcher_record absD_def absS_def absN_def rest_of_def stream_def
        fresh_child_def idle_def remaining_def)+

lemma New_rule:
  "rule_of (NewBooleanSearcher f must should mustNot e)
     = qualify (must \<noteq> None) (should = None \<or> map_option min_required should = Some 0) f"
  by (cases must; cases should)
     (simp_all add: NewBooleanSearcher_record rule_of_def optional_def)

lemma drain_New:
  assumes "fresh_child must" and "fresh_child should" and "fresh_child mustNot"
  shows "\<exists>rvs s' ctx'. drain (NewBooleanSearcher f must should mustNot e) ctx = (rvs, None, s', ctx')
     \<and> map item rvs
         = scan_all (qualify (must \<noteq> None) (should = None \<or> map_option min_required should = Some 0) f)
             (stream (if must \<noteq> None then must else should))
             (if must \<noteq> None then stream should else []) (stream mustNot)"
  using drain_ready[OF NewBooleanSearcher_ready[OF assms], of f e ctx]
  by (simp add: New_view[OF assms] New_rule)

lemma scenario_fresh:
  "fresh_child (Some (fresh [(1::nat, a1), (3, a3), (5, a5)] m))"
  "fresh_child (Some (fresh [(3::nat, b3), (4, b4)] 0))"
  "fresh_child (Some (fresh [(4::nat, c4)] n))"
  by (simp_all add: fresh_child_def idle_def fresh_def ascending_def)

text \<open>
  Claim C8. With a must child emitting 1, 3, 5, a should child emitting 3, 4 with
  \<open>min_required\<close> 0 and a must-not child emitting 4, successive \<^verbatim>\<open>Next\<close>
  calls return 1, 3 and 5 in that order and then end-of-stream. The score of 3 is
  the scorer's combination of the must match and the should match at 3; the
  scores of 1 and 5 are its combination of the must match alone. This holds for
  every ranking formula, all scores of the children, every \<open>min_required\<close> of
  the must and must-not children and every context.
\<close>

theorem scenario_1_3_5:
  "map item (fst (drain (NewBooleanSearcher f
        (Some (fresh [(1::nat, a1), (3, a3), (5, a5)] m))
        (Some (fresh [(3, b3), (4, b4)] 0))
        (Some (fresh [(4, c4)] n)) e) ctx))
     = [(1, f [a1]), (3, f [a3, b3]), (5, f [a5])]
   \<and> fst (snd (drain (NewBooleanSearcher f
        (Some (fresh [(1::nat, a1), (3, a3), (5, a5)] m))
        (Some (fresh [(3, b3), (4, b4)] 0))
        (Some (fresh [(4, c4)] n)) e) ctx)) = None"
proof -
  from drain_New[OF scenario_fresh(1)[of a1 a3 a5 m] scenario_fresh(2)[of b3 b4]
      scenario_fresh(3)[of c4 n], where f = f and e = e and ctx = ctx]
  obtain rvs s' ctx' where d: "drain (NewBooleanSearcher f
        (Some (fresh [(1::nat, a1), (3, a3), (5, a5)] m))
        (Some (fresh [(3, b3), (4, b4)] 0))
        (Some (fresh [(4, c4)] n)) e) ctx = (rvs, None, s', ctx')"
    and m: "map item rvs = scan_all (qualify True True f) [(1::nat, a1), (3, a3), (5, a5)]
              [(3, b3), (4, b4)] [(4, c4)]"
    by (auto simp: stream_def fresh_def)
  have "scan_all (qualify True True f) [(1::nat, a1), (3, a3), (5, a5)] [(3, b3), (4, b4)] [(4, c4)]
          = [(1, f [a1]), (3, f [a3, b3]), (5, f [a5])]"
    by (simp add: skip_to_def at_head_def qualify_def)
  then show ?thesis using d m by simp
qed


lemma drain_New_ids:
  assumes "fresh_child must" and "fresh_child should" and "fresh_child mustNot"
  shows "map IndexInternalID (fst (drain (NewBooleanSearcher f must should mustNot e) ctx))
       = filter (\<lambda>i. i \<notin> fst ` set (stream mustNot)
                     \<and> (must = None \<or> should = None \<or> map_option min_required should = Some 0
                          \<or> i \<in> fst ` set (stream should)))
           (map fst (stream (if must \<noteq> None then must else should)))
     \<and> fst (snd (drain (NewBooleanSearcher f must should mustNot e) ctx)) = None"
proof -
  let ?s = "NewBooleanSearcher f must should mustNot e"
  have rd: "ready ?s" using NewBooleanSearcher_ready[OF assms] .
  from drain_ids[OF rd, of ctx]
  obtain rvs s' ctx' where d: "drain ?s ctx = (rvs, None, s', ctx')"
    and m: "map IndexInternalID rvs
         = filter (admitted (mustSearcher ?s \<noteq> None) (optional ?s) (absS ?s) (absN ?s)) (map fst (absD ?s))"
    by blast
  have hm: "(mustSearcher ?s \<noteq> None) = (must \<noteq> None)"
    by (cases must) (simp_all add: NewBooleanSearcher_record)
  have op: "optional ?s = (should = None \<or> map_option min_required should = Some 0)"
    by (cases should) (simp_all add: NewBooleanSearcher_record optional_def)
  have "admitted (mustSearcher ?s \<noteq> None) (optional ?s) (absS ?s) (absN ?s)
      = (\<lambda>i. i \<notin> fst ` set (stream mustNot)
                     \<and> (must = None \<or> should = None \<or> map_option min_required should = Some 0
                          \<or> i \<in> fst ` set (stream should)))"
    unfolding hm op New_view[OF assms] by (auto simp: admitted_def fun_eq_iff)
  then show ?thesis using d m New_view(1)[OF assms, of f e] by simp
qed

text \<open>
  Claim C1, as amended. Take a searcher built over children that have not been
  pulled, never fail and emit strictly increasing streams, and iterate
  \<^verbatim>\<open>Next\<close> to exhaustion. The identifiers emitted are, in order, those of the
  must stream (of the should stream when there is no must child) that do not
  appear in the must-not stream and that, when there is a must child and a should
  child whose \<open>min_required\<close> is not 0, also appear in the should stream. The
  iteration ends with end-of-stream.
\<close>

theorem emitted_iff_qualifies:
  assumes "fresh_child must" and "fresh_child should" and "fresh_child mustNot"
  shows "map IndexInternalID (fst (drain (NewBooleanSearcher f must should mustNot e) ctx))
       = filter (\<lambda>i. i \<notin> fst ` set (stream mustNot)
                     \<and> (must = None \<or> should = None \<or> map_option min_required should = Some 0
                          \<or> i \<in> fst ` set (stream should)))
           (map fst (stream (if must \<noteq> None then must else should)))
     \<and> fst (snd (drain (NewBooleanSearcher f must should mustNot e) ctx)) = None"
  using drain_New_ids[OF assms] .

text \<open>
  A must stream 1, 3, a should stream 3 with \<open>min_required\<close> 1 and no must-not
  child: document 1 is in the must stream and in no must-not stream, and it is not
  emitted.
\<close>

definition required_should_example :: "nat BooleanSearcher" where
  "required_should_example =
     NewBooleanSearcher (\<lambda>xs. Finite 0)
       (Some (fresh [(1, Finite 1), (3, Finite 1)] 0))
       (Some (fresh [(3, Finite 1)] 1)) None False"

lemma required_should_fresh:
  "fresh_child (Some (fresh [(1::nat, Finite 1), (3, Finite 1)] 0))"
  "fresh_child (Some (fresh [(3::nat, Finite 1)] 1))"
  "fresh_child (None :: nat Searcher option)"
  by (simp_all add: fresh_child_def idle_def fresh_def ascending_def)

theorem emitted_iff_counterexample:
  "1 \<in> fst ` set (stream (mustSearcher required_should_example))
   \<and> 1 \<notin> fst ` set (stream (mustNotSearcher required_should_example))
   \<and> 1 \<notin> set (map IndexInternalID (fst (drain required_should_example new_context)))"
proof -
  have "map IndexInternalID (fst (drain required_should_example new_context)) = [3]"
    unfolding required_should_example_def
    using drain_New_ids[OF required_should_fresh, of "\<lambda>xs. Finite 0" False new_context]
    by (simp add: stream_def fresh_def)
  then show ?thesis
    by (simp add: required_should_example_def NewBooleanSearcher_record stream_def fresh_def)
qed

theorem emitted_iff_qualifies_witness:
  "map IndexInternalID (fst (drain (NewBooleanSearcher (\<lambda>xs. Finite 0)
        (Some (fresh [(1::nat, Finite 1), (3, Finite 1)] 0))
        (Some (fresh [(3, Finite 1)] 1)) None False) new_context)) = [3]
   \<and> map IndexInternalID (fst (drain (NewBooleanSearcher (\<lambda>xs. Finite 0)
        (Some (fresh [(1::nat, Finite 1), (3, Finite 1)] 0))
        (Some (fresh [(3, Finite 1)] 0)) None False) new_context)) = [1, 3]"
proof -
  have f0: "fresh_child (Some (fresh [(3::nat, Finite 1)] 0))"
    by (simp add: fresh_child_def idle_def fresh_def ascending_def)
  show ?thesis
    using emitted_iff_qualifies[OF required_should_fresh, of "\<lambda>xs. Finite 0" False new_context]
      emitted_iff_qualifies[OF required_should_fresh(1) f0 required_should_fresh(3),
        of "\<lambda>xs. Finite 0" False new_context]
    by (simp add: stream_def fresh_def)
qed

text \<open>The same configuration with fixed scores, as a concrete searcher.\<close>

definition scenario :: "nat BooleanSearcher" where
  "scenario =
     NewBooleanSearcher (\<lambda>xs. Finite (real (length xs)))
       (Some (fresh [(1, Finite 1), (3, Finite 1), (5, Finite 1)] 0))
       (Some (fresh [(3, Finite 1), (4, Finite 1)] 0))
       (Some (fresh [(4, Finite 1)] 0)) False"

lemma scenario_reachable: "reachable scenario"
  unfolding scenario_def by (rule reachable.built) (rule scenario_fresh)+

lemma scenario_ids:
  "map IndexInternalID (fst (drain scenario new_context)) = [1, 3, 5]"
  unfolding scenario_def
  using drain_New_ids[OF scenario_fresh(1)[of "Finite 1" "Finite 1" "Finite 1" 0]
      scenario_fresh(2)[of "Finite 1" "Finite 1"] scenario_fresh(3)[of "Finite 1" 0],
      of "\<lambda>xs. Finite (real (length xs))" False new_context]
  by (simp add: stream_def fresh_def)

theorem results_strictly_increasing_witness:
  "sorted_wrt (<) (map IndexInternalID (fst (drain scenario new_context)))
   \<and> map IndexInternalID (fst (drain scenario new_context)) = [1, 3, 5]"
  using results_strictly_increasing[OF scenario_reachable, of new_context] scenario_ids
  by blast




section \<open>The query norm\<close>

text \<open>The weight that a clause contributes, 0 when it has no child, and a child
  after one more \<^verbatim>\<open>SetQueryNorm\<close> call.\<close>

definition weight_of :: "'i Searcher option \<Rightarrow> float64" where
  "weight_of c = (case c of None \<Rightarrow> Finite 0 | Some c \<Rightarrow> weight c)"

definition informed :: "float64 \<Rightarrow> 'i Searcher option \<Rightarrow> 'i Searcher option" where
  "informed qn c = map_option (\<lambda>c. c\<lparr>norms := norms c @ [qn]\<rparr>) c"

lemma norm_of_total:
  "norm_of must should
     = f64_div (Finite 1) (f64_sqrt (f64_add (f64_add (Finite 0) (weight_of must)) (weight_of should)))"
proof -
  have z: "f64_add x (Finite 0) = x" for x
    by (cases x) simp_all
  show ?thesis
    by (cases must; cases should) (simp_all add: norm_of_def weight_of_def z)
qed

text \<open>
  Claim C6. The constructor computes the query norm as 1 divided by the square
  root of the sum of the weights of the must and should children, an absent child
  contributing 0 and the must-not child nothing. It passes that norm to the must
  child and to the should child through one \<^verbatim>\<open>SetQueryNorm\<close> call each, and
  leaves the must-not child untouched. When the sum is 0 the norm is the positive
  infinity, which is not finite: no branch guards the division.
\<close>

theorem query_norm_at_construction:
  "queryNorm (NewBooleanSearcher f must should mustNot e)
     = f64_div (Finite 1) (f64_sqrt (f64_add (f64_add (Finite 0) (weight_of must)) (weight_of should)))
   \<and> mustSearcher (NewBooleanSearcher f must should mustNot e)
       = informed (queryNorm (NewBooleanSearcher f must should mustNot e)) must
   \<and> shouldSearcher (NewBooleanSearcher f must should mustNot e)
       = informed (queryNorm (NewBooleanSearcher f must should mustNot e)) should
   \<and> mustNotSearcher (NewBooleanSearcher f must should mustNot e) = mustNot
   \<and> (f64_add (f64_add (Finite 0) (weight_of must)) (weight_of should) = Finite 0
        \<longrightarrow> queryNorm (NewBooleanSearcher f must should mustNot e) = PosInf
            \<and> \<not> is_finite (queryNorm (NewBooleanSearcher f must should mustNot e)))"
  by (simp add: NewBooleanSearcher_record norm_of_total informed_def)

theorem query_norm_at_construction_witness:
  "queryNorm (NewBooleanSearcher (\<lambda>xs. Finite 0)
       (Some ((fresh [(1::nat, Finite 1)] 0)\<lparr>weight := Finite 0\<rparr>)) None
       (Some ((fresh [(1::nat, Finite 1)] 0)\<lparr>weight := Finite 4\<rparr>)) False) = PosInf
   \<and> queryNorm (NewBooleanSearcher (\<lambda>xs. Finite 0)
       (Some ((fresh [(1::nat, Finite 1)] 0)\<lparr>weight := Finite 3\<rparr>))
       (Some ((fresh [(1::nat, Finite 1)] 0)\<lparr>weight := Finite 1\<rparr>))
       (Some ((fresh [(1::nat, Finite 1)] 0)\<lparr>weight := Finite 5\<rparr>)) False) = Finite (1 / 2)"
proof -
  have "queryNorm (NewBooleanSearcher (\<lambda>xs. Finite 0)
       (Some ((fresh [(1::nat, Finite 1)] 0)\<lparr>weight := Finite 0\<rparr>)) None
       (Some ((fresh [(1::nat, Finite 1)] 0)\<lparr>weight := Finite 4\<rparr>)) False) = PosInf"
    using query_norm_at_construction[of "\<lambda>xs. Finite 0"
        "Some ((fresh [(1::nat, Finite 1)] 0)\<lparr>weight := Finite 0\<rparr>)" None
        "Some ((fresh [(1::nat, Finite 1)] 0)\<lparr>weight := Finite 4\<rparr>)" False]
    by (simp add: weight_of_def fresh_def)
  moreover have "queryNorm (NewBooleanSearcher (\<lambda>xs. Finite 0)
       (Some ((fresh [(1::nat, Finite 1)] 0)\<lparr>weight := Finite 3\<rparr>))
       (Some ((fresh [(1::nat, Finite 1)] 0)\<lparr>weight := Finite 1\<rparr>))
       (Some ((fresh [(1::nat, Finite 1)] 0)\<lparr>weight := Finite 5\<rparr>)) False) = Finite (1 / 2)"
    by (simp add: NewBooleanSearcher_record norm_of_def fresh_def)
  ultimately show ?thesis by blast
qed


section \<open>Failing children\<close>

text \<open>
  How the fault script of a child moved between two states: only over calls that
  succeeded, or over calls that succeeded followed by exactly one call that failed
  with error \<open>k\<close>.
\<close>

definition calm :: "'i Searcher option \<Rightarrow> 'i Searcher option \<Rightarrow> bool" where
  "calm a b =
     (case a of
        None \<Rightarrow> b = None
      | Some c \<Rightarrow>
          (case b of None \<Rightarrow> False
           | Some c' \<Rightarrow> \<exists>pre. faults c = pre @ faults c' \<and> set pre \<subseteq> {None}))"

definition tripped :: "nat \<Rightarrow> 'i Searcher option \<Rightarrow> 'i Searcher option \<Rightarrow> bool" where
  "tripped k a b =
     (case a of
        None \<Rightarrow> False
      | Some c \<Rightarrow>
          (case b of None \<Rightarrow> False
           | Some c' \<Rightarrow> \<exists>pre. faults c = pre @ Some k # faults c' \<and> set pre \<subseteq> {None}))"

definition calm_all :: "'i BooleanSearcher \<Rightarrow> 'i BooleanSearcher \<Rightarrow> bool" where
  "calm_all s s' = (\<forall>cl. calm (searcherOf cl s) (searcherOf cl s'))"

definition tripped_at :: "nat \<Rightarrow> clause \<Rightarrow> 'i BooleanSearcher \<Rightarrow> 'i BooleanSearcher \<Rightarrow> bool" where
  "tripped_at k cl s s' =
     (tripped k (searcherOf cl s) (searcherOf cl s')
      \<and> (\<forall>cl'. cl' \<noteq> cl \<longrightarrow> calm (searcherOf cl' s) (searcherOf cl' s'))
      \<and> currOf cl s' = None)"

definition accounts :: "'i BooleanSearcher \<Rightarrow> error option \<Rightarrow> 'i BooleanSearcher \<Rightarrow> bool" where
  "accounts s e s' =
     (case e of
        None \<Rightarrow> calm_all s s'
      | Some NilDereference \<Rightarrow> calm_all s s'
      | Some (ChildError k) \<Rightarrow> (\<exists>cl. tripped_at k cl s s'))"


lemma calm_refl [simp]: "calm a a"
  by (cases a) (auto simp: calm_def)



lemma calm_all_refl [simp]: "calm_all s s"
  by (simp add: calm_all_def)








lemma searcherOf_fields [simp]:
  "searcherOf cl (s\<lparr>currentID := w\<rparr>) = searcherOf cl s"
  "searcherOf cl (s\<lparr>initialized := b\<rparr>) = searcherOf cl s"
  "searcherOf cl (s\<lparr>currMust := v\<rparr>) = searcherOf cl s"
  "searcherOf cl (s\<lparr>currShould := v\<rparr>) = searcherOf cl s"
  "searcherOf cl (s\<lparr>currMustNot := v\<rparr>) = searcherOf cl s"
  by (cases cl; simp)+

lemma accounts_simps [simp]:
  "accounts s None s' = calm_all s s'"
  "accounts s (Some NilDereference) s' = calm_all s s'"
  "accounts s (Some (ChildError k)) s' = (\<exists>cl. tripped_at k cl s s')"
  by (simp_all add: accounts_def)


lemma accounts_None_same:
  "(\<And>cl. searcherOf cl s' = searcherOf cl s) \<Longrightarrow> accounts s None s'"
  by (simp add: accounts_def calm_all_def)





text \<open>The error with which a part of the loop body leaves \<^verbatim>\<open>Next\<close>, if it does.\<close>

definition error_of :: "'i flow \<Rightarrow> error option" where
  "error_of f = (case f of Return e \<Rightarrow> Some e | _ \<Rightarrow> None)"
























text \<open>The definitions that running the code on a concrete input unfolds.\<close>

lemmas run_defs = Next_def initSearchers_def refill_def and_then_def call_child_def
  Searcher_Next_def Searcher_Advance_def Searcher_pull_def Pool_Get_def Pool_Put_def drivingID_def
  Next_loop_step Next_loop_exhausted Next_body_def exclusion_def alignment_def reject_def
  advanceNextMust_def emit_def scoreBonus_def scoreMustOnly_def shouldMin_def Scorer_Score_def
  id_before_def id_equals_def at_or_past_def assign.simps












section \<open>Advance over children that fail or are out of order\<close>














section \<open>The match pool\<close>

text \<open>
  The handles that a searcher holds in its three slots, and the books of a run:
  every handle issued so far is recycled, held in a slot, or was handed to the
  caller, and is counted once.
\<close>

definition slot_handles :: "'i DocumentMatch option \<Rightarrow> nat list" where
  "slot_handles d = (case d of None \<Rightarrow> [] | Some m \<Rightarrow> [handle m])"

definition held :: "'i BooleanSearcher \<Rightarrow> nat list" where
  "held s = slot_handles (currMust s) @ slot_handles (currShould s) @ slot_handles (currMustNot s)"

definition balanced :: "'i BooleanSearcher \<Rightarrow> SearchContext \<Rightarrow> nat list \<Rightarrow> bool" where
  "balanced s ctx outs =
     (mset (recycled ctx) + mset (held s) + mset outs = mset [0..<issued ctx])"

text \<open>
  The must slot is filled only when there is a must child, and while there is a
  candidate the must slot of a searcher with a must child is filled.
\<close>

definition wired0 :: "'i BooleanSearcher \<Rightarrow> bool" where
  "wired0 s = (currMust s \<noteq> None \<longrightarrow> mustSearcher s \<noteq> None)"

definition wired :: "'i BooleanSearcher \<Rightarrow> bool" where
  "wired s =
     (wired0 s \<and> (currentID s \<noteq> None \<longrightarrow> mustSearcher s \<noteq> None \<longrightarrow> currMust s \<noteq> None))"

definition thrifty :: "('i Searcher \<Rightarrow> SearchContext \<Rightarrow> 'i pulled) \<Rightarrow> bool" where
  "thrifty op =
     (\<forall>c ctx r c' ctx'. op c ctx = (r, c', ctx') \<longrightarrow>
        recycled ctx' = recycled ctx \<and>
        (case r of
           Inr (Some m) \<Rightarrow> handle m = issued ctx \<and> issued ctx' = Suc (issued ctx)
         | _ \<Rightarrow> issued ctx' = issued ctx))"

lemma pull_thrifty:
  "Searcher_pull c ctx = (r, c', ctx') \<Longrightarrow>
     recycled ctx' = recycled ctx \<and>
     (case r of Inr (Some m) \<Rightarrow> handle m = issued ctx \<and> issued ctx' = Suc (issued ctx)
      | _ \<Rightarrow> issued ctx' = issued ctx)"
  by (auto simp: Searcher_pull_def Pool_Get_def split: list.splits)

lemma thrifty_Next: "thrifty Searcher_Next"
  unfolding thrifty_def
proof (intro allI impI)
  fix c :: "'a Searcher" and ctx r c' ctx'
  assume run: "Searcher_Next c ctx = (r, c', ctx')"
  show "recycled ctx' = recycled ctx \<and>
     (case r of Inr (Some m) \<Rightarrow> handle m = issued ctx \<and> issued ctx' = Suc (issued ctx)
      | _ \<Rightarrow> issued ctx' = issued ctx)"
  proof (cases "\<exists>k. faults c = Some k # tl (faults c)")
    case True
    then show ?thesis using run
      by (auto simp: Searcher_Next_def split: list.splits option.splits)
  next
    case False
    then have "Searcher_Next c ctx = Searcher_pull (c\<lparr>faults := tl (faults c)\<rparr>) ctx"
      by (auto simp: Searcher_Next_def split: list.splits option.splits)
    then show ?thesis using run pull_thrifty by metis
  qed
qed

lemma thrifty_Advance: "thrifty (\<lambda>c ctx. Searcher_Advance c ctx t)"
  unfolding thrifty_def
proof (intro allI impI)
  fix c :: "'a Searcher" and ctx r c' ctx'
  assume run: "Searcher_Advance c ctx t = (r, c', ctx')"
  show "recycled ctx' = recycled ctx \<and>
     (case r of Inr (Some m) \<Rightarrow> handle m = issued ctx \<and> issued ctx' = Suc (issued ctx)
      | _ \<Rightarrow> issued ctx' = issued ctx)"
  proof (cases "\<exists>k. faults c = Some k # tl (faults c)")
    case True
    then show ?thesis using run
      by (auto simp: Searcher_Advance_def split: list.splits option.splits)
  next
    case False
    let ?c = "c\<lparr>faults := tl (faults c), upcoming := dropWhile (\<lambda>x. fst x < t) (upcoming c)\<rparr>"
    have eq: "Searcher_Advance c ctx t =
        (if at_or_past (position c) t
           then (Inr (Some (fst (Pool_Get ctx (the (position c))))),
                 c\<lparr>faults := tl (faults c)\<rparr>, snd (Pool_Get ctx (the (position c))))
           else Searcher_pull ?c ctx)"
      using False by (auto simp: Searcher_Advance_def split: list.splits option.splits)
    show ?thesis
    proof (cases "at_or_past (position c) t")
      case True
      then show ?thesis using run eq by (auto simp: Pool_Get_def)
    next
      case f: False
      then have "Searcher_pull ?c ctx = (r, c', ctx')" using run eq by simp
      then show ?thesis by (rule pull_thrifty)
    qed
  qed
qed

lemma held_assign:
  "mset (held (assign cl c d s)) + mset (slot_handles (currOf cl s))
     = mset (held s) + mset (slot_handles d)"
  by (cases cl) (simp_all add: held_def)

lemma range_Suc: "mset [0..<Suc n] = mset [0..<n] + {#n#}"
  by simp

text \<open>The books of one successful child call, before the old match of the slot is
  booked as recycled or as handed out.\<close>

lemma call_child_books:
  assumes "thrifty op" and "call_child cl op s ctx0 = (None, s', ctx')"
  shows "recycled ctx' = recycled ctx0"
    and "mset (held s') + mset (slot_handles (currOf cl s)) + mset [0..<issued ctx0]
           = mset (held s) + mset [0..<issued ctx']"
proof -
  from assms(2) obtain c where c: "searcherOf cl s = Some c"
    by (cases "searcherOf cl s") (auto simp: call_child_def)
  obtain r c' cx where op: "op c ctx0 = (r, c', cx)" by (cases "op c ctx0") auto
  from assms(2) c op obtain d where r: "r = Inr d" and s': "s' = assign cl c' d s" and cx: "cx = ctx'"
    by (cases r) (auto simp: call_child_def)
  have th: "recycled ctx' = recycled ctx0"
    "case d of Some m \<Rightarrow> handle m = issued ctx0 \<and> issued ctx' = Suc (issued ctx0)
      | None \<Rightarrow> issued ctx' = issued ctx0"
    using assms(1) op r cx unfolding thrifty_def by (fastforce split: option.splits sum.splits)+
  show "recycled ctx' = recycled ctx0" using th(1) .
  have new: "mset [0..<issued ctx'] = mset [0..<issued ctx0] + mset (slot_handles d)"
    using th(2) by (cases d) (simp_all add: slot_handles_def)
  show "mset (held s') + mset (slot_handles (currOf cl s)) + mset [0..<issued ctx0]
           = mset (held s) + mset [0..<issued ctx']"
    unfolding s' new using held_assign[of cl c' d s] by (simp add: ac_simps)
qed

lemma Put_recycled:
  "recycled (Pool_Put ctx d) = recycled ctx @ slot_handles d"
  "issued (Pool_Put ctx d) = issued ctx"
  by (cases d; simp add: Pool_Put_def slot_handles_def)+

lemma call_child_recycling:
  assumes "thrifty op"
    and "call_child cl op s (if currOf cl s \<noteq> None then Pool_Put ctx (currOf cl s) else ctx)
           = (None, s', ctx')"
    and "balanced s ctx outs"
  shows "balanced s' ctx' outs"
proof -
  let ?ctx0 = "if currOf cl s \<noteq> None then Pool_Put ctx (currOf cl s) else ctx"
  have r0: "recycled ?ctx0 = recycled ctx @ slot_handles (currOf cl s)" "issued ?ctx0 = issued ctx"
    by (cases "currOf cl s"; simp add: Put_recycled slot_handles_def)+
  note b = call_child_books[OF assms(1,2)]
  have "mset (recycled ctx') + mset (held s') + mset outs + mset [0..<issued ctx]
      = mset (recycled ctx) + (mset (held s') + mset (slot_handles (currOf cl s)) + mset [0..<issued ctx])
        + mset outs"
    using b(1) r0 by (simp add: ac_simps)
  also have "\<dots> = mset (recycled ctx) + (mset (held s) + mset [0..<issued ctx']) + mset outs"
    using b(2) r0 by simp
  also have "\<dots> = mset [0..<issued ctx'] + mset [0..<issued ctx]"
    using assms(3) by (simp add: balanced_def ac_simps)
  finally show ?thesis by (simp add: balanced_def)
qed

lemma call_child_handing_out:
  assumes "thrifty op"
    and "call_child cl op s ctx = (None, s', ctx')"
    and "balanced s ctx outs"
  shows "balanced s' ctx' (outs @ slot_handles (currOf cl s))"
proof -
  note b = call_child_books[OF assms(1,2)]
  have "mset (recycled ctx') + mset (held s') + mset (outs @ slot_handles (currOf cl s))
          + mset [0..<issued ctx]
      = mset (recycled ctx) + (mset (held s') + mset (slot_handles (currOf cl s)) + mset [0..<issued ctx])
        + mset outs"
    using b(1) by (simp add: ac_simps)
  also have "\<dots> = mset (recycled ctx) + (mset (held s) + mset [0..<issued ctx']) + mset outs"
    using b(2) by simp
  also have "\<dots> = mset [0..<issued ctx'] + mset [0..<issued ctx]"
    using assms(3) by (simp add: balanced_def ac_simps)
  finally show ?thesis by (simp add: balanced_def)
qed


text \<open>The clause whose child drives the iteration.\<close>

definition lead :: "'i BooleanSearcher \<Rightarrow> clause" where
  "lead s = (if mustSearcher s \<noteq> None then Must else Should)"

definition handed :: "'i flow \<Rightarrow> nat list" where
  "handed f = (case f of Break rv \<Rightarrow> [handle rv] | _ \<Rightarrow> [])"

lemma held_fields [simp]:
  "held (s\<lparr>currentID := i\<rparr>) = held s"
  "held (s\<lparr>initialized := b\<rparr>) = held s"
  by (simp_all add: held_def)

lemma balanced_fields [simp]:
  "balanced (s\<lparr>currentID := i\<rparr>) ctx outs = balanced s ctx outs"
  "balanced (s\<lparr>initialized := b\<rparr>) ctx outs = balanced s ctx outs"
  by (simp_all add: balanced_def)

lemma call_child_None:
  assumes "call_child cl op s ctx = (None, s', ctx')"
  shows "\<exists>c c' d. searcherOf cl s = Some c \<and> s' = assign cl c' d s"
proof -
  from assms obtain c where c: "searcherOf cl s = Some c"
    by (cases "searcherOf cl s") (auto simp: call_child_def)
  obtain r c' cx where op: "op c ctx = (r, c', cx)" by (cases "op c ctx") auto
  from assms c op obtain d where "s' = assign cl c' d s"
    by (cases r) (auto simp: call_child_def)
  then show ?thesis using c by blast
qed

lemma call_child_wired0:
  assumes "call_child cl op s ctx = (None, s', ctx')" and "wired0 s"
  shows "wired0 s'"
  using call_child_None[OF assms(1)] assms(2) by (auto simp: wired0_def)

lemma call_child_wired:
  assumes "call_child cl op s ctx = (None, s', ctx')" and "wired s" and "cl \<noteq> Must"
  shows "wired s'" and "currentID s' = currentID s"
  using call_child_None[OF assms(1)] assms(2,3) by (auto simp: wired_def wired0_def)

lemma driving_wired: "wired0 s \<Longrightarrow> wired (s\<lparr>currentID := drivingID s\<rparr>)"
  by (auto simp: wired_def wired0_def drivingID_def)

lemma driving_wired_init:
  "wired0 s \<Longrightarrow> wired (s\<lparr>currentID := drivingID s, initialized := True\<rparr>)"
  by (auto simp: wired_def wired0_def drivingID_def)

lemma advanceNextMust_sound:
  assumes run: "advanceNextMust s ctx skip = (None, s', ctx')"
    and w: "wired0 s" and b: "balanced s ctx outs"
    and sk: "skip = None \<or> map_option handle (currOf (lead s) s) = map_option handle skip"
  shows "wired s' \<and> balanced s' ctx' (outs @ slot_handles skip)"
proof -
  let ?cl = "lead s"
  let ?ctx0 = "if map_option handle (currOf ?cl s) \<noteq> map_option handle skip
                then Pool_Put ctx (currOf ?cl s) else ctx"
  have r: "(if mustSearcher s \<noteq> None
        then call_child Must Searcher_Next s
               (if map_option handle (currMust s) \<noteq> map_option handle skip
                then Pool_Put ctx (currMust s) else ctx)
        else call_child Should Searcher_Next s
               (if map_option handle (currShould s) \<noteq> map_option handle skip
                then Pool_Put ctx (currShould s) else ctx))
       = call_child ?cl Searcher_Next s ?ctx0"
    by (simp add: lead_def)
  from and_then_None[OF run[unfolded advanceNextMust_def r]]
  obtain s1 c1 where cc: "call_child ?cl Searcher_Next s ?ctx0 = (None, s1, c1)"
    and fin: "s' = s1\<lparr>currentID := drivingID s1\<rparr>" "ctx' = c1" by auto
  have w': "wired s'" unfolding fin using driving_wired[OF call_child_wired0[OF cc w]] .
  have "balanced s1 c1 (outs @ slot_handles skip)"
  proof (cases "map_option handle (currOf ?cl s) = map_option handle skip")
    case True
    then have "call_child ?cl Searcher_Next s ctx = (None, s1, c1)" using cc by simp
    from call_child_handing_out[OF thrifty_Next this b]
    have "balanced s1 c1 (outs @ slot_handles (currOf ?cl s))" .
    moreover have "slot_handles (currOf ?cl s) = slot_handles skip"
      using True by (cases "currOf ?cl s"; cases skip) (auto simp: slot_handles_def)
    ultimately show ?thesis by simp
  next
    case False
    then have n: "skip = None" using sk by blast
    then have ne: "currOf ?cl s \<noteq> None" using False by auto
    then have "call_child ?cl Searcher_Next s
        (if currOf ?cl s \<noteq> None then Pool_Put ctx (currOf ?cl s) else ctx) = (None, s1, c1)"
      using cc False by simp
    from call_child_recycling[OF thrifty_Next this b]
    show ?thesis using n by (simp add: slot_handles_def)
  qed
  then show ?thesis using w' fin by simp
qed

lemma reject_sound:
  assumes "reject s ctx = (f, s', ctx')" and "error_of f = None"
    and "wired0 s" and "balanced s ctx outs"
  shows "f = Continue \<and> wired s' \<and> balanced s' ctx' outs"
proof -
  obtain e s1 c1 where a: "advanceNextMust s ctx None = (e, s1, c1)"
    by (cases "advanceNextMust s ctx None") auto
  show ?thesis
  proof (cases e)
    case None
    then have "f = Continue" "s' = s1" "ctx' = c1" using assms(1) a by (simp_all add: reject_def)
    then show ?thesis
      using advanceNextMust_sound[OF a[unfolded None] assms(3,4)] by (simp add: slot_handles_def)
  next
    case (Some x)
    then show ?thesis using assms(1,2) a by (auto simp: reject_def error_of_def)
  qed
qed

lemma emit_sound:
  assumes run: "emit cl cons s ctx = (f, s', ctx')" and ok: "error_of f = None"
    and w: "wired0 s" and b: "balanced s ctx outs"
    and hd: "hd cons = currOf cl s" and cl: "cl = lead s"
  shows "wired s' \<and> balanced s' ctx' (outs @ handed f)"
proof (cases "Scorer_Score (scorer s) cons")
  case (Inl e)
  then show ?thesis using run ok by (auto simp: emit_def error_of_def)
next
  case (Inr rv)
  then have ne: "cons \<noteq> []" and nn: "None \<notin> set cons"
    and rv: "rv = (the (hd cons))\<lparr>Score := combine (scorer s) (map (\<lambda>d. Score (the d)) cons)\<rparr>"
    by (auto simp: Scorer_Score_def split: if_splits)
  from nn have "hd cons \<noteq> None" using hd_in_set[OF ne] by metis
  then obtain m where m: "hd cons = Some m" by (cases "hd cons") auto
  then have cur: "currOf cl s = Some m" and h: "handle rv = handle m" using hd rv by simp_all
  let ?s1 = "case cl of Must \<Rightarrow> s\<lparr>currMust := Some rv\<rparr>
                      | Should \<Rightarrow> s\<lparr>currShould := Some rv\<rparr>
                      | MustNot \<Rightarrow> s"
  have cl': "cl = Must \<and> mustSearcher s \<noteq> None \<or> cl = Should \<and> mustSearcher s = None"
    using cl by (simp add: lead_def)
  have held1: "held ?s1 = held s"
    using cl' cur h by (auto simp: held_def slot_handles_def)
  have b1: "balanced ?s1 ctx outs" using b held1 by (simp add: balanced_def)
  have w1: "wired0 ?s1" using w cl' by (auto simp: wired0_def)
  have l1: "lead ?s1 = cl" using cl' by (auto simp: lead_def)
  have sk: "Some rv = None \<or> map_option handle (currOf (lead ?s1) ?s1) = map_option handle (Some rv)"
    unfolding l1 using cl' by auto
  obtain e s2 c2 where a: "advanceNextMust ?s1 ctx (Some rv) = (e, s2, c2)"
    by (cases "advanceNextMust ?s1 ctx (Some rv)") auto
  show ?thesis
  proof (cases e)
    case None
    then have "f = Break rv" "s' = s2" "ctx' = c2" using run Inr a by (simp_all add: emit_def)
    then show ?thesis
      using advanceNextMust_sound[OF a[unfolded None] w1 b1 sk]
      by (simp add: slot_handles_def handed_def)
  next
    case (Some x)
    then show ?thesis using run ok Inr a by (auto simp: emit_def error_of_def)
  qed
qed

lemma scoreBonus_sound:
  assumes "scoreBonus s ctx = (f, s', ctx')" and "error_of f = None"
    and "wired s" and "currentID s \<noteq> None" and "balanced s ctx outs"
  shows "wired s' \<and> balanced s' ctx' (outs @ handed f)"
proof (cases "currMust s \<noteq> None")
  case True
  then have e: "emit Must [currMust s, currShould s] s ctx = (f, s', ctx')"
    using assms(1) by (simp add: scoreBonus_def)
  have "Must = lead s" using True assms(3) by (simp add: lead_def wired_def wired0_def)
  with emit_sound[OF e assms(2) _ assms(5)] assms(3) show ?thesis by (simp add: wired_def)
next
  case False
  then have e: "emit Should [currShould s] s ctx = (f, s', ctx')"
    using assms(1) by (simp add: scoreBonus_def)
  have "Should = lead s" using False assms(3,4) by (auto simp: lead_def wired_def)
  with emit_sound[OF e assms(2) _ assms(5)] assms(3) show ?thesis by (simp add: wired_def)
qed

lemma scoreMustOnly_sound:
  assumes "scoreMustOnly s ctx = (f, s', ctx')" and "error_of f = None"
    and "wired s" and "balanced s ctx outs"
  shows "wired s' \<and> balanced s' ctx' (outs @ handed f)"
proof (cases "currMust s \<noteq> None")
  case True
  have e: "emit Must [currMust s] s ctx = (f, s', ctx')"
    using assms(1) by (simp add: scoreMustOnly_def)
  have "Must = lead s" using True assms(3) by (simp add: lead_def wired_def wired0_def)
  with emit_sound[OF e assms(2) _ assms(4)] assms(3) show ?thesis by (simp add: wired_def)
next
  case False
  then show ?thesis using assms(1,2)
    by (auto simp: scoreMustOnly_def emit_def Scorer_Score_def error_of_def)
qed

lemma exclusion_sound:
  assumes run: "exclusion cid s ctx = (f, s', ctx')" and ok: "error_of f = None"
    and w: "wired s" and b: "balanced s ctx outs"
  shows "wired s' \<and> balanced s' ctx' outs \<and> (f = Continue \<or> f = Fallthrough \<and> currentID s' = currentID s)"
proof -
  have w0: "wired0 s" using w by (simp add: wired_def)
  show ?thesis
  proof (cases "id_before (currMustNot s) cid")
    case True
    obtain e s1 c1 where cc: "call_child MustNot (\<lambda>c ctx. Searcher_Advance c ctx cid) s
        (if currMustNot s \<noteq> None then Pool_Put ctx (currMustNot s) else ctx) = (e, s1, c1)"
      by (cases "call_child MustNot (\<lambda>c ctx. Searcher_Advance c ctx cid) s
        (if currMustNot s \<noteq> None then Pool_Put ctx (currMustNot s) else ctx)") auto
    show ?thesis
    proof (cases e)
      case (Some x)
      then show ?thesis using run ok True cc by (auto simp: exclusion_def error_of_def)
    next
      case None
      have cc': "call_child MustNot (\<lambda>c ctx. Searcher_Advance c ctx cid) s
          (if currOf MustNot s \<noteq> None then Pool_Put ctx (currOf MustNot s) else ctx) = (None, s1, c1)"
        unfolding currOf.simps using cc None by simp
      have b1: "balanced s1 c1 outs" using call_child_recycling[OF thrifty_Advance cc' b] .
      have w1: "wired s1" and id1: "currentID s1 = currentID s"
        using call_child_wired[OF cc' w] by simp_all
      show ?thesis
      proof (cases "id_equals (currMustNot s1) cid")
        case t: True
        then have "reject s1 c1 = (f, s', ctx')" using run True cc None by (simp add: exclusion_def)
        from reject_sound[OF this ok _ b1] w1 show ?thesis by (simp add: wired_def)
      next
        case False
        then have "f = Fallthrough" "s' = s1" "ctx' = c1"
          using run True cc None by (simp_all add: exclusion_def)
        then show ?thesis using b1 w1 id1 by simp
      qed
    qed
  next
    case False
    show ?thesis
    proof (cases "id_equals (currMustNot s) cid")
      case True
      then have "reject s ctx = (f, s', ctx')" using run False by (simp add: exclusion_def)
      from reject_sound[OF this ok w0 b] show ?thesis by simp
    next
      case ne: False
      then have "f = Fallthrough" "s' = s" "ctx' = ctx"
        using run False by (simp_all add: exclusion_def)
      then show ?thesis using b w by simp
    qed
  qed
qed

lemma alignment_tail_sound:
  assumes run: "(case shouldMin s of
              Inl e \<Rightarrow> (Return e, s, ctx)
            | Inr n \<Rightarrow> if n = 0 then scoreMustOnly s ctx else (Fallthrough, s, ctx)) = (f, s', ctx')"
    and ok: "error_of f = None" and w: "wired s" and b: "balanced s ctx outs"
  shows "wired s' \<and> balanced s' ctx' (outs @ handed f)"
proof (cases "shouldMin s")
  case (Inl e)
  then show ?thesis using run ok by (auto simp: error_of_def)
next
  case (Inr n)
  show ?thesis
  proof (cases "n = 0")
    case True
    then have "scoreMustOnly s ctx = (f, s', ctx')" using run Inr by simp
    from scoreMustOnly_sound[OF this ok w b] show ?thesis .
  next
    case False
    then have "f = Fallthrough" "s' = s" "ctx' = ctx" using run Inr by simp_all
    then show ?thesis using w b by (simp add: handed_def)
  qed
qed

lemma alignment_sound:
  assumes run: "alignment cid s ctx = (f, s', ctx')" and ok: "error_of f = None"
    and w: "wired s" and cur: "currentID s \<noteq> None" and b: "balanced s ctx outs"
  shows "wired s' \<and> balanced s' ctx' (outs @ handed f)"
proof (cases "id_before (currShould s) cid")
  case True
  obtain e s1 c1 where cc: "call_child Should (\<lambda>c ctx. Searcher_Advance c ctx cid) s
      (if currShould s \<noteq> None then Pool_Put ctx (currShould s) else ctx) = (e, s1, c1)"
    by (cases "call_child Should (\<lambda>c ctx. Searcher_Advance c ctx cid) s
      (if currShould s \<noteq> None then Pool_Put ctx (currShould s) else ctx)") auto
  show ?thesis
  proof (cases e)
    case (Some x)
    then show ?thesis using run ok True cc by (auto simp: alignment_def error_of_def)
  next
    case None
    have cc': "call_child Should (\<lambda>c ctx. Searcher_Advance c ctx cid) s
        (if currOf Should s \<noteq> None then Pool_Put ctx (currOf Should s) else ctx) = (None, s1, c1)"
      unfolding currOf.simps using cc None by simp
    have b1: "balanced s1 c1 outs" using call_child_recycling[OF thrifty_Advance cc' b] .
    have w1: "wired s1" and id1: "currentID s1 \<noteq> None"
      using call_child_wired[OF cc' w] cur by simp_all
    show ?thesis
    proof (cases "id_equals (currShould s1) cid")
      case t: True
      then have "scoreBonus s1 c1 = (f, s', ctx')" using run True cc None by (simp add: alignment_def)
      from scoreBonus_sound[OF this ok w1 id1 b1] show ?thesis .
    next
      case False
      then have "(case shouldMin s1 of
              Inl e \<Rightarrow> (Return e, s1, c1)
            | Inr n \<Rightarrow> if n = 0 then scoreMustOnly s1 c1 else (Fallthrough, s1, c1)) = (f, s', ctx')"
        using run True cc None by (simp add: alignment_def)
      from alignment_tail_sound[OF this ok w1 b1] show ?thesis .
    qed
  qed
next
  case False
  show ?thesis
  proof (cases "id_equals (currShould s) cid")
    case True
    then have "scoreBonus s ctx = (f, s', ctx')" using run False by (simp add: alignment_def)
    from scoreBonus_sound[OF this ok w cur b] show ?thesis .
  next
    case ne: False
    show ?thesis
    proof (cases "shouldSearcher s = None")
      case True
      then have "scoreMustOnly s ctx = (f, s', ctx')" using run False ne by (simp add: alignment_def)
      from scoreMustOnly_sound[OF this ok w b] show ?thesis .
    next
      case sp: False
      then have "(case shouldMin s of
              Inl e \<Rightarrow> (Return e, s, ctx)
            | Inr n \<Rightarrow> if n = 0 then scoreMustOnly s ctx else (Fallthrough, s, ctx)) = (f, s', ctx')"
        using run False ne by (auto simp: alignment_def)
      from alignment_tail_sound[OF this ok w b] show ?thesis .
    qed
  qed
qed

lemma Next_body_sound:
  assumes run: "Next_body cid s ctx = (f, s', ctx')" and ok: "error_of f = None"
    and w: "wired s" and cur: "currentID s \<noteq> None" and b: "balanced s ctx outs"
  shows "wired s' \<and> balanced s' ctx' (outs @ handed f)"
proof -
  obtain f1 s1 c1 where ex: "exclusion cid s ctx = (f1, s1, c1)"
    by (cases "exclusion cid s ctx") auto
  obtain f2 s2 c2 where al: "alignment cid s1 c1 = (f2, s2, c2)"
    by (cases "alignment cid s1 c1") auto
  show ?thesis
  proof (cases "f1 = Fallthrough")
    case True
    then have ok1: "error_of f1 = None" by (simp add: error_of_def)
    from exclusion_sound[OF ex ok1 w b] True
    have w1: "wired s1" and b1: "balanced s1 c1 outs" and id1: "currentID s1 \<noteq> None"
      using cur by auto
    show ?thesis
    proof (cases "f2 = Fallthrough")
      case t: True
      then have ok2: "error_of f2 = None" by (simp add: error_of_def)
      from alignment_sound[OF al ok2 w1 id1 b1] t
      have w2: "wired0 s2" and b2: "balanced s2 c2 outs" by (simp_all add: handed_def wired_def)
      have "reject s2 c2 = (f, s', ctx')" using run ex al True t by (simp add: Next_body_def)
      from reject_sound[OF this ok w2 b2] show ?thesis by (simp add: handed_def)
    next
      case False
      then have "f = f2" "s' = s2" "ctx' = c2"
        using run ex al True by (cases f2; simp add: Next_body_def)+
      then show ?thesis using alignment_sound[OF al _ w1 id1 b1] ok by simp
    qed
  next
    case False
    then have e: "f = f1" "s' = s1" "ctx' = c1" using run ex by (cases f1; simp add: Next_body_def)+
    then have "error_of f1 = None" using ok by simp
    from exclusion_sound[OF ex this w b] False e show ?thesis by (auto simp: handed_def)
  qed
qed

lemma Next_loop_sound:
  "Next_loop s ctx = (Inr r, s', ctx') \<Longrightarrow> wired s \<Longrightarrow> balanced s ctx outs
     \<Longrightarrow> wired s' \<and> balanced s' ctx' (outs @ slot_handles r)"
proof (induction s ctx rule: Next_loop.induct)
  case (1 s ctx)
  show ?case
  proof (cases "currentID s")
    case None
    then show ?thesis using "1.prems" by (auto simp: Next_loop_exhausted slot_handles_def)
  next
    case (Some cid)
    obtain f s1 c1 where bd: "Next_body cid s ctx = (f, s1, c1)"
      by (cases "Next_body cid s ctx") auto
    have cur: "currentID s \<noteq> None" using Some by simp
    show ?thesis
    proof (cases f)
      case Continue
      then have ok: "error_of f = None" by (simp add: error_of_def)
      from Next_body_sound[OF bd ok "1.prems"(2) cur "1.prems"(3)] Continue
      have w1: "wired s1" and b1: "balanced s1 c1 outs" by (simp_all add: handed_def)
      have "Next_loop s1 c1 = (Inr r, s', ctx')"
        using "1.prems"(1) Some bd Continue by (simp add: Next_loop_step)
      from "1.IH"(1)[OF Some bd[symmetric] Continue refl this w1 b1] show ?thesis .
    next
      case Fallthrough
      then show ?thesis using Next_body_flow[OF bd] by simp
    next
      case (Break rv)
      then have ok: "error_of f = None" by (simp add: error_of_def)
      have "r = Some rv" "s' = s1" "ctx' = c1"
        using "1.prems"(1) Some bd Break by (simp_all add: Next_loop_step)
      then show ?thesis
        using Next_body_sound[OF bd ok "1.prems"(2) cur "1.prems"(3)] Break
        by (simp add: handed_def slot_handles_def)
    next
      case (Return e)
      then show ?thesis using "1.prems"(1) Some bd by (simp add: Next_loop_step)
    qed
  qed
qed

lemma refill_sound:
  assumes "thrifty op" and "refill cl op s ctx = (None, s', ctx')"
    and "wired0 s" and "balanced s ctx outs"
  shows "wired0 s' \<and> balanced s' ctx' outs"
proof (cases "searcherOf cl s \<noteq> None")
  case True
  then have cc: "call_child cl op s (if currOf cl s \<noteq> None then Pool_Put ctx (currOf cl s) else ctx)
      = (None, s', ctx')" using assms(2) by (simp add: refill_def)
  show ?thesis
    using call_child_recycling[OF assms(1) cc assms(4)] call_child_wired0[OF cc assms(3)] by simp
next
  case False
  then show ?thesis using assms by (simp add: refill_def)
qed

lemma initSearchers_sound:
  assumes "initSearchers s ctx = (None, s', ctx')" and "wired0 s" and "balanced s ctx outs"
  shows "wired s' \<and> balanced s' ctx' outs"
proof -
  from and_then_None[OF assms(1)[unfolded initSearchers_def]]
  obtain s1 c1 where r1: "refill Must Searcher_Next s ctx = (None, s1, c1)"
    and k1: "and_then (refill Should Searcher_Next s1 c1) (\<lambda>s ctx.
       and_then (refill MustNot Searcher_Next s ctx) (\<lambda>s ctx.
         (None, s\<lparr>currentID := drivingID s, initialized := True\<rparr>, ctx))) = (None, s', ctx')"
    by auto
  from and_then_None[OF k1]
  obtain s2 c2 where r2: "refill Should Searcher_Next s1 c1 = (None, s2, c2)"
    and k2: "and_then (refill MustNot Searcher_Next s2 c2) (\<lambda>s ctx.
         (None, s\<lparr>currentID := drivingID s, initialized := True\<rparr>, ctx)) = (None, s', ctx')"
    by auto
  from and_then_None[OF k2]
  obtain s3 c3 where r3: "refill MustNot Searcher_Next s2 c2 = (None, s3, c3)"
    and fin: "s' = s3\<lparr>currentID := drivingID s3, initialized := True\<rparr>" "ctx' = c3"
    by auto
  note a1 = refill_sound[OF thrifty_Next r1 assms(2,3)]
  note a2 = refill_sound[OF thrifty_Next r2 a1[THEN conjunct1] a1[THEN conjunct2]]
  note a3 = refill_sound[OF thrifty_Next r3 a2[THEN conjunct1] a2[THEN conjunct2]]
  show ?thesis unfolding fin using a3 driving_wired_init[of s3] by simp
qed

lemma reposition_sound:
  assumes "and_then (refill Must (\<lambda>c ctx. Searcher_Advance c ctx X) s ctx) (\<lambda>s ctx.
     and_then (refill Should (\<lambda>c ctx. Searcher_Advance c ctx X) s ctx) (\<lambda>s ctx.
     and_then (refill MustNot (\<lambda>c ctx. Searcher_Advance c ctx X) s ctx) (\<lambda>s ctx.
       (None, s\<lparr>currentID := drivingID s\<rparr>, ctx)))) = (None, s', ctx')"
    and "wired0 s" and "balanced s ctx outs"
  shows "wired s' \<and> balanced s' ctx' outs"
proof -
  from and_then_None[OF assms(1)]
  obtain s1 c1 where r1: "refill Must (\<lambda>c ctx. Searcher_Advance c ctx X) s ctx = (None, s1, c1)"
    and k1: "and_then (refill Should (\<lambda>c ctx. Searcher_Advance c ctx X) s1 c1) (\<lambda>s ctx.
       and_then (refill MustNot (\<lambda>c ctx. Searcher_Advance c ctx X) s ctx) (\<lambda>s ctx.
         (None, s\<lparr>currentID := drivingID s\<rparr>, ctx))) = (None, s', ctx')"
    by auto
  from and_then_None[OF k1]
  obtain s2 c2 where r2: "refill Should (\<lambda>c ctx. Searcher_Advance c ctx X) s1 c1 = (None, s2, c2)"
    and k2: "and_then (refill MustNot (\<lambda>c ctx. Searcher_Advance c ctx X) s2 c2) (\<lambda>s ctx.
         (None, s\<lparr>currentID := drivingID s\<rparr>, ctx)) = (None, s', ctx')"
    by auto
  from and_then_None[OF k2]
  obtain s3 c3 where r3: "refill MustNot (\<lambda>c ctx. Searcher_Advance c ctx X) s2 c2 = (None, s3, c3)"
    and fin: "s' = s3\<lparr>currentID := drivingID s3\<rparr>" "ctx' = c3"
    by auto
  note a1 = refill_sound[OF thrifty_Advance r1 assms(2,3)]
  note a2 = refill_sound[OF thrifty_Advance r2 a1[THEN conjunct1] a1[THEN conjunct2]]
  note a3 = refill_sound[OF thrifty_Advance r3 a2[THEN conjunct1] a2[THEN conjunct2]]
  show ?thesis unfolding fin using a3 driving_wired[of s3] by simp
qed

lemma Next_sound:
  assumes "Next s ctx = (Inr r, s', ctx')" and "wired s" and "balanced s ctx outs"
  shows "wired s' \<and> balanced s' ctx' (outs @ slot_handles r)"
proof (cases "initialized s")
  case True
  then have "Next_loop s ctx = (Inr r, s', ctx')" using assms(1) by (simp add: Next_def)
  from Next_loop_sound[OF this assms(2,3)] show ?thesis .
next
  case False
  obtain e s1 c1 where i: "initSearchers s ctx = (e, s1, c1)"
    by (cases "initSearchers s ctx") auto
  show ?thesis
  proof (cases e)
    case None
    have w0: "wired0 s" using assms(2) by (simp add: wired_def)
    from initSearchers_sound[OF i[unfolded None] w0 assms(3)]
    have w1: "wired s1" and b1: "balanced s1 c1 outs" by simp_all
    have "Next_loop s1 c1 = (Inr r, s', ctx')" using assms(1) False i None by (simp add: Next_def)
    from Next_loop_sound[OF this w1 b1] show ?thesis .
  next
    case (Some x)
    then show ?thesis using assms(1) False i by (simp add: Next_def)
  qed
qed

lemma Advance_sound:
  assumes "Advance s ctx X = (Inr r, s', ctx')" and "wired s" and "balanced s ctx outs"
  shows "wired s' \<and> balanced s' ctx' (outs @ slot_handles r)"
proof -
  obtain e0 s0 c0 where i: "(if \<not> initialized s then initSearchers s ctx else (None, s, ctx)) = (e0, s0, c0)"
    by (cases "if \<not> initialized s then initSearchers s ctx else (None, s, ctx)") auto
  have w0: "wired0 s" using assms(2) by (simp add: wired_def)
  show ?thesis
  proof (cases e0)
    case (Some x)
    then show ?thesis using assms(1) i by (simp add: Advance_def)
  next
    case None
    have s0: "wired0 s0 \<and> balanced s0 c0 outs"
    proof (cases "initialized s")
      case True
      then show ?thesis using i w0 assms(3) by simp
    next
      case False
      then have "initSearchers s ctx = (None, s0, c0)" using i None by simp
      from initSearchers_sound[OF this w0 assms(3)] show ?thesis by (simp add: wired_def)
    qed
    obtain e1 s1 c1 where rp: "and_then (refill Must (\<lambda>c ctx. Searcher_Advance c ctx X) s0 c0) (\<lambda>s ctx.
       and_then (refill Should (\<lambda>c ctx. Searcher_Advance c ctx X) s ctx) (\<lambda>s ctx.
       and_then (refill MustNot (\<lambda>c ctx. Searcher_Advance c ctx X) s ctx) (\<lambda>s ctx.
         (None, s\<lparr>currentID := drivingID s\<rparr>, ctx)))) = (e1, s1, c1)"
      by (cases "and_then (refill Must (\<lambda>c ctx. Searcher_Advance c ctx X) s0 c0) (\<lambda>s ctx.
       and_then (refill Should (\<lambda>c ctx. Searcher_Advance c ctx X) s ctx) (\<lambda>s ctx.
       and_then (refill MustNot (\<lambda>c ctx. Searcher_Advance c ctx X) s ctx) (\<lambda>s ctx.
         (None, s\<lparr>currentID := drivingID s\<rparr>, ctx))))") auto
    show ?thesis
    proof (cases e1)
      case (Some x)
      then show ?thesis using assms(1) i None rp by (simp add: Advance_def)
    next
      case n: None
      from reposition_sound[OF rp[unfolded n] s0[THEN conjunct1] s0[THEN conjunct2]]
      have w1: "wired s1" and b1: "balanced s1 c1 outs" by simp_all
      have "Next s1 c1 = (Inr r, s', ctx')" using assms(1) i None rp n by (simp add: Advance_def)
      from Next_sound[OF this w1 b1] show ?thesis .
    qed
  qed
qed

lemma drain_sound:
  "drain s ctx = (rvs, None, s', ctx') \<Longrightarrow> wired s \<Longrightarrow> balanced s ctx outs
     \<Longrightarrow> wired s' \<and> balanced s' ctx' (outs @ map handle rvs)"
proof (induction s ctx arbitrary: rvs outs s' ctx' rule: drain.induct)
  case (1 s ctx)
  obtain r s1 c1 where n: "Next s ctx = (r, s1, c1)" by (cases "Next s ctx") auto
  show ?case
  proof (cases r)
    case (Inl e)
    then show ?thesis using "1.prems"(1) n by (simp add: drain.simps[of s ctx])
  next
    case (Inr d)
    note s1 = Next_sound[OF n[unfolded Inr] "1.prems"(2,3)]
    show ?thesis
    proof (cases d)
      case None
      then have "rvs = []" "s' = s1" "ctx' = c1"
        using "1.prems"(1) n Inr by (simp_all add: drain.simps[of s ctx])
      then show ?thesis using s1 None by (simp add: slot_handles_def)
    next
      case (Some rv)
      obtain rest e2 s2 c2 where d2: "drain s1 c1 = (rest, e2, s2, c2)"
        by (cases "drain s1 c1") auto
      have eq: "rvs = rv # rest" "e2 = None" "s' = s2" "ctx' = c2"
        using "1.prems"(1) n Inr Some d2 by (simp_all add: drain.simps[of s ctx])
      from "1.IH"[OF n[symmetric] Inr Some refl d2[unfolded eq(2)], of "outs @ [handle rv]"] s1 Some
      show ?thesis unfolding eq by (simp add: slot_handles_def)
    qed
  qed
qed

lemma balanced_distinct:
  assumes "balanced s ctx outs"
  shows "distinct (recycled ctx @ held s @ outs)"
proof -
  have "mset (recycled ctx @ held s @ outs) = mset [0..<issued ctx]"
    using assms by (simp add: balanced_def ac_simps)
  from mset_eq_imp_distinct_iff[OF this] show ?thesis by simp
qed

subsection \<open>The reads of match objects\<close>

text \<open>
  The searcher reads a match object when it takes its identifier
  (\<^verbatim>\<open>.IndexInternalID\<close> at lines 105, 107, 138, 140, 181, 190, 198, 207, 216,
  244, 320 and 322) and when it passes it to the scorer, which reads the scores of
  its constituents and writes the first. Comparing a slot with nil or with
  \<^verbatim>\<open>skipReturn\<close>, and passing a slot to \<^verbatim>\<open>Put\<close>, do not touch the object.
  A read log has one entry for each read, in order: the handle of the object, and
  what the pool had received at that moment.
\<close>

type_synonym reads = "(nat \<times> nat list) list"

definition read_match :: "SearchContext \<Rightarrow> 'i DocumentMatch option \<Rightarrow> reads \<Rightarrow> reads" where
  "read_match ctx d lg = (case d of None \<Rightarrow> lg | Some m \<Rightarrow> lg @ [(handle m, recycled ctx)])"

text \<open>No entry of the log is a read of an object that was in the pool.\<close>

definition clean :: "reads \<Rightarrow> bool" where
  "clean lg = (\<forall>x \<in> set lg. fst x \<notin> set (snd x))"

type_synonym 'i logged_status = "error option \<times> 'i BooleanSearcher \<times> SearchContext \<times> reads"

type_synonym 'i logged_step = "'i flow \<times> 'i BooleanSearcher \<times> SearchContext \<times> reads"

type_synonym 'i logged_result =
  "(error + 'i DocumentMatch option) \<times> 'i BooleanSearcher \<times> SearchContext \<times> reads"

text \<open>A result without its log.\<close>

definition erase :: "'a \<times> 'b \<times> 'c \<times> reads \<Rightarrow> 'a \<times> 'b \<times> 'c" where
  "erase r = (case r of (a, b, c, lg) \<Rightarrow> (a, b, c))"

text \<open>The read of the block that recomputes the current identifier: the match of
  the branch taken, lines 105, 107, 138, 140, 320 and 322.\<close>

definition driving_reads :: "'i BooleanSearcher \<Rightarrow> SearchContext \<Rightarrow> reads \<Rightarrow> reads" where
  "driving_reads s ctx lg =
     (if mustSearcher s \<noteq> None \<and> currMust s \<noteq> None then read_match ctx (currMust s) lg
      else if mustSearcher s = None \<and> currShould s \<noteq> None then read_match ctx (currShould s) lg
      else lg)"

text \<open>
  \<^verbatim>\<open>initSearchers\<close> and \<^verbatim>\<open>advanceNextMust\<close> read a match only in their
  last block, which they reach when no child call failed; the block reads the slot
  as the calls left it, and only assigns \<^verbatim>\<open>currentID\<close> and
  \<^verbatim>\<open>initialized\<close>.
\<close>

definition initSearchers_logged ::
  "'i BooleanSearcher \<Rightarrow> SearchContext \<Rightarrow> reads \<Rightarrow> 'i logged_status" where
  "initSearchers_logged s ctx lg =
     (case initSearchers s ctx of
        (Some e, s', ctx') \<Rightarrow> (Some e, s', ctx', lg)
      | (None, s', ctx') \<Rightarrow> (None, s', ctx', driving_reads s' ctx' lg))"

definition advanceNextMust_logged ::
  "'i BooleanSearcher \<Rightarrow> SearchContext \<Rightarrow> 'i DocumentMatch option \<Rightarrow> reads \<Rightarrow> 'i logged_status" where
  "advanceNextMust_logged s ctx skipReturn lg =
     (case advanceNextMust s ctx skipReturn of
        (Some e, s', ctx') \<Rightarrow> (Some e, s', ctx', lg)
      | (None, s', ctx') \<Rightarrow> (None, s', ctx', driving_reads s' ctx' lg))"

definition reject_logged :: "'i BooleanSearcher \<Rightarrow> SearchContext \<Rightarrow> reads \<Rightarrow> 'i logged_step" where
  "reject_logged s ctx lg =
     (case advanceNextMust_logged s ctx None lg of
        (Some e, s', ctx', lg') \<Rightarrow> (Return e, s', ctx', lg')
      | (None, s', ctx', lg') \<Rightarrow> (Continue, s', ctx', lg'))"

text \<open>The exclusion check, lines 181 to 205, with the reads of lines 181, 190 and
  198.\<close>

definition exclusion_logged ::
  "'i::linorder \<Rightarrow> 'i BooleanSearcher \<Rightarrow> SearchContext \<Rightarrow> reads \<Rightarrow> 'i logged_step" where
  "exclusion_logged cid s ctx lg =
     (let lg1 = read_match ctx (currMustNot s) lg in
      if id_before (currMustNot s) cid then
        (case call_child MustNot (\<lambda>c ctx. Searcher_Advance c ctx cid) s
                (if currMustNot s \<noteq> None then Pool_Put ctx (currMustNot s) else ctx) of
           (Some e, s', ctx') \<Rightarrow> (Return e, s', ctx', lg1)
         | (None, s', ctx') \<Rightarrow>
             (let lg2 = read_match ctx' (currMustNot s') lg1 in
              if id_equals (currMustNot s') cid then reject_logged s' ctx' lg2
              else (Fallthrough, s', ctx', lg2)))
      else
        (let lg2 = read_match ctx (currMustNot s) lg1 in
         if id_equals (currMustNot s) cid then reject_logged s ctx lg2
         else (Fallthrough, s, ctx, lg2)))"

text \<open>Scoring and emitting: the scorer reads every constituent.\<close>

definition emit_logged ::
  "clause \<Rightarrow> 'i DocumentMatch option list \<Rightarrow> 'i BooleanSearcher \<Rightarrow> SearchContext \<Rightarrow> reads
     \<Rightarrow> 'i logged_step" where
  "emit_logged cl cons s ctx lg =
     (let lg1 = fold (read_match ctx) cons lg in
      case Scorer_Score (scorer s) cons of
        Inl e \<Rightarrow> (Return e, s, ctx, lg1)
      | Inr rv \<Rightarrow>
          (case advanceNextMust_logged
                  (case cl of Must \<Rightarrow> s\<lparr>currMust := Some rv\<rparr>
                            | Should \<Rightarrow> s\<lparr>currShould := Some rv\<rparr>
                            | MustNot \<Rightarrow> s) ctx (Some rv) lg1 of
             (Some e, s', ctx', lg') \<Rightarrow> (Return e, s', ctx', lg')
           | (None, s', ctx', lg') \<Rightarrow> (Break rv, s', ctx', lg')))"

definition scoreBonus_logged :: "'i BooleanSearcher \<Rightarrow> SearchContext \<Rightarrow> reads \<Rightarrow> 'i logged_step" where
  "scoreBonus_logged s ctx lg =
     (if currMust s \<noteq> None then emit_logged Must [currMust s, currShould s] s ctx lg
      else emit_logged Should [currShould s] s ctx lg)"

definition scoreMustOnly_logged :: "'i BooleanSearcher \<Rightarrow> SearchContext \<Rightarrow> reads \<Rightarrow> 'i logged_step" where
  "scoreMustOnly_logged s ctx lg = emit_logged Must [currMust s] s ctx lg"

text \<open>The alignment of the should clause, lines 207 to 271, with the reads of
  lines 207, 216 and 244.\<close>

definition alignment_logged ::
  "'i::linorder \<Rightarrow> 'i BooleanSearcher \<Rightarrow> SearchContext \<Rightarrow> reads \<Rightarrow> 'i logged_step" where
  "alignment_logged cid s ctx lg =
     (let lg1 = read_match ctx (currShould s) lg in
      if id_before (currShould s) cid then
        (case call_child Should (\<lambda>c ctx. Searcher_Advance c ctx cid) s
                (if currShould s \<noteq> None then Pool_Put ctx (currShould s) else ctx) of
           (Some e, s', ctx') \<Rightarrow> (Return e, s', ctx', lg1)
         | (None, s', ctx') \<Rightarrow>
             (let lg2 = read_match ctx' (currShould s') lg1 in
              if id_equals (currShould s') cid then scoreBonus_logged s' ctx' lg2
              else (case shouldMin s' of
                      Inl e \<Rightarrow> (Return e, s', ctx', lg2)
                    | Inr n \<Rightarrow> if n = 0 then scoreMustOnly_logged s' ctx' lg2
                               else (Fallthrough, s', ctx', lg2))))
      else
        (let lg2 = read_match ctx (currShould s) lg1 in
         if id_equals (currShould s) cid then scoreBonus_logged s ctx lg2
         else if shouldSearcher s = None then scoreMustOnly_logged s ctx lg2
         else (case shouldMin s of
                 Inl e \<Rightarrow> (Return e, s, ctx, lg2)
               | Inr n \<Rightarrow> if n = 0 then scoreMustOnly_logged s ctx lg2
                          else (Fallthrough, s, ctx, lg2))))"

definition Next_body_logged ::
  "'i::linorder \<Rightarrow> 'i BooleanSearcher \<Rightarrow> SearchContext \<Rightarrow> reads \<Rightarrow> 'i logged_step" where
  "Next_body_logged cid s ctx lg =
     (case exclusion_logged cid s ctx lg of
        (Fallthrough, s1, ctx1, lg1) \<Rightarrow>
          (case alignment_logged cid s1 ctx1 lg1 of
             (Fallthrough, s2, ctx2, lg2) \<Rightarrow> reject_logged s2 ctx2 lg2
           | r \<Rightarrow> r)
      | r \<Rightarrow> r)"

text \<open>Without its log, each logged part is the part itself.\<close>

lemma erase_simp [simp]: "erase (a, b, c, lg) = (a, b, c)"
  by (simp add: erase_def)

lemma initSearchers_logged_erase [simp]:
  "erase (initSearchers_logged s ctx lg) = initSearchers s ctx"
  by (simp add: initSearchers_logged_def split: prod.splits option.splits)

lemma advanceNextMust_logged_erase [simp]:
  "erase (advanceNextMust_logged s ctx skip lg) = advanceNextMust s ctx skip"
  by (simp add: advanceNextMust_logged_def split: prod.splits option.splits)

lemma reject_logged_erase [simp]:
  "erase (reject_logged s ctx lg) = reject s ctx"
proof -
  obtain e s' ctx' lg' where a: "advanceNextMust_logged s ctx None lg = (e, s', ctx', lg')"
    by (cases "advanceNextMust_logged s ctx None lg") auto
  then have "advanceNextMust s ctx None = (e, s', ctx')"
    using advanceNextMust_logged_erase[of s ctx None lg] by simp
  then show ?thesis using a by (cases e) (simp_all add: reject_logged_def reject_def)
qed

lemma exclusion_logged_erase [simp]:
  "erase (exclusion_logged cid s ctx lg) = exclusion cid s ctx"
  by (simp add: exclusion_logged_def exclusion_def Let_def split: prod.splits option.splits)

lemma emit_logged_erase [simp]:
  "erase (emit_logged cl cons s ctx lg) = emit cl cons s ctx"
proof (cases "Scorer_Score (scorer s) cons")
  case (Inl e)
  then show ?thesis by (simp add: emit_logged_def emit_def Let_def)
next
  case (Inr rv)
  let ?s = "case cl of Must \<Rightarrow> s\<lparr>currMust := Some rv\<rparr> | Should \<Rightarrow> s\<lparr>currShould := Some rv\<rparr> | MustNot \<Rightarrow> s"
  let ?lg = "fold (read_match ctx) cons lg"
  obtain e s' ctx' lg' where a: "advanceNextMust_logged ?s ctx (Some rv) ?lg = (e, s', ctx', lg')"
    by (cases "advanceNextMust_logged ?s ctx (Some rv) ?lg") auto
  then have "advanceNextMust ?s ctx (Some rv) = (e, s', ctx')"
    using advanceNextMust_logged_erase[of ?s ctx "Some rv" ?lg] by simp
  then show ?thesis using a Inr by (cases e) (simp_all add: emit_logged_def emit_def Let_def)
qed

lemma scoreBonus_logged_erase [simp]:
  "erase (scoreBonus_logged s ctx lg) = scoreBonus s ctx"
  by (simp add: scoreBonus_logged_def scoreBonus_def)

lemma scoreMustOnly_logged_erase [simp]:
  "erase (scoreMustOnly_logged s ctx lg) = scoreMustOnly s ctx"
  by (simp add: scoreMustOnly_logged_def scoreMustOnly_def)

lemma alignment_logged_erase [simp]:
  "erase (alignment_logged cid s ctx lg) = alignment cid s ctx"
  by (simp add: alignment_logged_def alignment_def Let_def split: prod.splits option.splits sum.splits)

lemma erase_eq:
  "r = (a, b, c, lg) \<Longrightarrow> erase r = (a, b, c)"
  by simp

lemma Next_body_logged_erase [simp]:
  "erase (Next_body_logged cid s ctx lg) = Next_body cid s ctx"
proof -
  obtain f1 s1 c1 l1 where ex: "exclusion_logged cid s ctx lg = (f1, s1, c1, l1)"
    by (cases "exclusion_logged cid s ctx lg") auto
  have ex': "exclusion cid s ctx = (f1, s1, c1)"
    using erase_eq[OF ex] by simp
  obtain f2 s2 c2 l2 where al: "alignment_logged cid s1 c1 l1 = (f2, s2, c2, l2)"
    by (cases "alignment_logged cid s1 c1 l1") auto
  have al': "alignment cid s1 c1 = (f2, s2, c2)"
    using erase_eq[OF al] by simp
  show ?thesis
    by (cases f1; cases f2) (simp_all add: Next_body_logged_def Next_body_def ex ex' al al')
qed

lemma Next_body_logged_run:
  assumes "Next_body_logged cid s ctx lg = (f, s', ctx', lg')"
  shows "Next_body cid s ctx = (f, s', ctx')"
proof -
  have "erase (Next_body_logged cid s ctx lg) = (f, s', ctx')" unfolding assms by simp
  then show ?thesis by simp
qed

function Next_loop_logged ::
  "'i::linorder BooleanSearcher \<Rightarrow> SearchContext \<Rightarrow> reads \<Rightarrow> 'i logged_result" where
  "Next_loop_logged s ctx lg =
     (case currentID s of
        None \<Rightarrow> (Inr None, s, ctx, lg)
      | Some cid \<Rightarrow>
          (case Next_body_logged cid s ctx lg of
             (Continue, s', ctx', lg') \<Rightarrow> Next_loop_logged s' ctx' lg'
           | (Break rv, s', ctx', lg') \<Rightarrow> (Inr (Some rv), s', ctx', lg')
           | (Return e, s', ctx', lg') \<Rightarrow> (Inl e, s', ctx', lg')
           | (Fallthrough, s', ctx', lg') \<Rightarrow> Next_loop_logged s' ctx' lg'))"
  by pat_completeness auto
termination
proof (relation "measure (\<lambda>(s, ctx, lg). pending s)")
  show "wf (measure (\<lambda>(s, ctx, lg). pending s))" by simp
next
  fix s :: "'i::linorder BooleanSearcher" and ctx lg cid x1 x2 s' x3 ctx' lg'
  assume "currentID s = Some cid" "(x1, x2) = Next_body_logged cid s ctx lg" "x1 = Continue"
    "(s', x3) = x2" "(ctx', lg') = x3"
  then have "Next_body_logged cid s ctx lg = (Continue, s', ctx', lg')" by simp
  from Next_body_pending[OF Next_body_logged_run[OF this]] \<open>currentID s = Some cid\<close>
  show "((s', ctx', lg'), (s, ctx, lg)) \<in> measure (\<lambda>(s, ctx, lg). pending s)"
    by (auto simp: pending_def)
next
  fix s :: "'i::linorder BooleanSearcher" and ctx lg cid x1 x2 s' x3 ctx' lg'
  assume "currentID s = Some cid" "(x1, x2) = Next_body_logged cid s ctx lg" "x1 = Fallthrough"
    "(s', x3) = x2" "(ctx', lg') = x3"
  then have "Next_body_logged cid s ctx lg = (Fallthrough, s', ctx', lg')" by simp
  from Next_body_flow[OF Next_body_logged_run[OF this]]
  show "((s', ctx', lg'), (s, ctx, lg)) \<in> measure (\<lambda>(s, ctx, lg). pending s)" by simp
qed

declare Next_loop_logged.simps [simp del]

lemma Next_loop_logged_exhausted:
  "currentID s = None \<Longrightarrow> Next_loop_logged s ctx lg = (Inr None, s, ctx, lg)"
  by (simp add: Next_loop_logged.simps[of s ctx lg])

lemma Next_loop_logged_step:
  "currentID s = Some cid \<Longrightarrow>
   Next_loop_logged s ctx lg =
     (case Next_body_logged cid s ctx lg of
        (Continue, s', ctx', lg') \<Rightarrow> Next_loop_logged s' ctx' lg'
      | (Break rv, s', ctx', lg') \<Rightarrow> (Inr (Some rv), s', ctx', lg')
      | (Return e, s', ctx', lg') \<Rightarrow> (Inl e, s', ctx', lg')
      | (Fallthrough, s', ctx', lg') \<Rightarrow> Next_loop_logged s' ctx' lg')"
  by (simp add: Next_loop_logged.simps[of s ctx lg])

lemma Next_loop_logged_erase [simp]:
  "erase (Next_loop_logged s ctx lg) = Next_loop s ctx"
proof (induction s ctx lg rule: Next_loop_logged.induct)
  case (1 s ctx lg)
  show ?case
  proof (cases "currentID s")
    case None
    then show ?thesis by (simp add: Next_loop_logged_exhausted Next_loop_exhausted)
  next
    case (Some cid)
    obtain f s1 c1 l1 where b: "Next_body_logged cid s ctx lg = (f, s1, c1, l1)"
      by (cases "Next_body_logged cid s ctx lg") auto
    note b' = Next_body_logged_run[OF b]
    show ?thesis
    proof (cases f)
      case Continue
      from "1.IH"(1)[OF Some b[symmetric] Continue refl refl]
      show ?thesis using Some b b' Continue by (simp add: Next_loop_logged_step Next_loop_step)
    next
      case Fallthrough
      then show ?thesis using Next_body_flow[OF b'] by simp
    next
      case (Break rv)
      then show ?thesis using Some b b' by (simp add: Next_loop_logged_step Next_loop_step)
    next
      case (Return e)
      then show ?thesis using Some b b' by (simp add: Next_loop_logged_step Next_loop_step)
    qed
  qed
qed

text \<open>\<^verbatim>\<open>Next\<close>, lines 168 to 279, and \<^verbatim>\<open>Advance\<close>, lines 281 to 328, with
  their reads.\<close>

definition Next_logged ::
  "'i::linorder BooleanSearcher \<Rightarrow> SearchContext \<Rightarrow> reads \<Rightarrow> 'i logged_result" where
  "Next_logged s ctx lg =
     (if \<not> initialized s then
        (case initSearchers_logged s ctx lg of
           (Some e, s', ctx', lg') \<Rightarrow> (Inl e, s', ctx', lg')
         | (None, s', ctx', lg') \<Rightarrow> Next_loop_logged s' ctx' lg')
      else Next_loop_logged s ctx lg)"

definition Advance_logged ::
  "'i::linorder BooleanSearcher \<Rightarrow> SearchContext \<Rightarrow> 'i \<Rightarrow> reads \<Rightarrow> 'i logged_result" where
  "Advance_logged s ctx ID lg =
     (case (if \<not> initialized s then initSearchers_logged s ctx lg else (None, s, ctx, lg)) of
        (Some e, s', ctx', lg') \<Rightarrow> (Inl e, s', ctx', lg')
      | (None, s0, ctx0, lg0) \<Rightarrow>
          (case and_then (refill Must (\<lambda>c ctx. Searcher_Advance c ctx ID) s0 ctx0) (\<lambda>s ctx.
                and_then (refill Should (\<lambda>c ctx. Searcher_Advance c ctx ID) s ctx) (\<lambda>s ctx.
                and_then (refill MustNot (\<lambda>c ctx. Searcher_Advance c ctx ID) s ctx) (\<lambda>s ctx.
                  (None, s\<lparr>currentID := drivingID s\<rparr>, ctx)))) of
             (Some e, s', ctx') \<Rightarrow> (Inl e, s', ctx', lg0)
           | (None, s1, ctx1) \<Rightarrow> Next_logged s1 ctx1 (driving_reads s1 ctx1 lg0)))"

lemma initSearchers_logged_run:
  assumes "initSearchers_logged s ctx lg = (e, s', ctx', lg')"
  shows "initSearchers s ctx = (e, s', ctx')"
proof -
  have "erase (initSearchers_logged s ctx lg) = (e, s', ctx')" unfolding assms by simp
  then show ?thesis by simp
qed

lemma Next_logged_erase [simp]:
  "erase (Next_logged s ctx lg) = Next s ctx"
proof (cases "initialized s")
  case True
  then show ?thesis by (simp add: Next_logged_def Next_def)
next
  case False
  obtain e s1 c1 l1 where i: "initSearchers_logged s ctx lg = (e, s1, c1, l1)"
    by (cases "initSearchers_logged s ctx lg") auto
  note i' = initSearchers_logged_run[OF i]
  show ?thesis using False i i' by (cases e) (simp_all add: Next_logged_def Next_def)
qed

lemma Next_logged_run:
  assumes "Next_logged s ctx lg = (r, s', ctx', lg')"
  shows "Next s ctx = (r, s', ctx')"
proof -
  have "erase (Next_logged s ctx lg) = (r, s', ctx')" unfolding assms by simp
  then show ?thesis by simp
qed

lemma Advance_logged_erase [simp]:
  "erase (Advance_logged s ctx X lg) = Advance s ctx X"
proof -
  let ?i = "if \<not> initialized s then initSearchers_logged s ctx lg else (None, s, ctx, lg)"
  obtain e0 s0 c0 l0 where i: "?i = (e0, s0, c0, l0)" by (cases ?i) auto
  have i': "(if \<not> initialized s then initSearchers s ctx else (None, s, ctx)) = (e0, s0, c0)"
  proof (cases "initialized s")
    case True
    then show ?thesis using i by simp
  next
    case False
    then show ?thesis using i initSearchers_logged_run[of s ctx lg e0 s0 c0 l0] by simp
  qed
  show ?thesis
  proof (cases e0)
    case (Some x)
    then show ?thesis using i i' by (simp add: Advance_logged_def Advance_def)
  next
    case None
    let ?rp = "and_then (refill Must (\<lambda>c ctx. Searcher_Advance c ctx X) s0 c0) (\<lambda>s ctx.
       and_then (refill Should (\<lambda>c ctx. Searcher_Advance c ctx X) s ctx) (\<lambda>s ctx.
       and_then (refill MustNot (\<lambda>c ctx. Searcher_Advance c ctx X) s ctx) (\<lambda>s ctx.
         (None, s\<lparr>currentID := drivingID s\<rparr>, ctx))))"
    obtain e1 s1 c1 where rp: "?rp = (e1, s1, c1)" by (cases ?rp) auto
    show ?thesis using i i' None rp by (cases e1) (simp_all add: Advance_logged_def Advance_def)
  qed
qed

lemma Advance_logged_run:
  assumes "Advance_logged s ctx X lg = (r, s', ctx', lg')"
  shows "Advance s ctx X = (r, s', ctx')"
proof -
  have "erase (Advance_logged s ctx X lg) = (r, s', ctx')" unfolding assms by simp
  then show ?thesis by simp
qed

text \<open>A caller that iterates \<^verbatim>\<open>Next\<close> to exhaustion, with the reads.\<close>

function drain_logged ::
  "'i::linorder BooleanSearcher \<Rightarrow> SearchContext \<Rightarrow> reads
     \<Rightarrow> 'i DocumentMatch list \<times> error option \<times> 'i BooleanSearcher \<times> SearchContext \<times> reads" where
  "drain_logged s ctx lg =
     (case Next_logged s ctx lg of
        (Inl e, s', ctx', lg') \<Rightarrow> ([], Some e, s', ctx', lg')
      | (Inr None, s', ctx', lg') \<Rightarrow> ([], None, s', ctx', lg')
      | (Inr (Some rv), s', ctx', lg') \<Rightarrow>
          (case drain_logged s' ctx' lg' of (rvs, r) \<Rightarrow> (rv # rvs, r)))"
  by pat_completeness auto
termination
proof (relation "measure (\<lambda>(s, ctx, lg). span s)")
  show "wf (measure (\<lambda>(s, ctx, lg). span s))" by simp
next
  fix s :: "'i::linorder BooleanSearcher" and ctx lg x1 x2 b rv s' x3 ctx' lg'
  assume "(x1, x2) = Next_logged s ctx lg" "x1 = Inr b" "b = Some rv" "(s', x3) = x2"
    "(ctx', lg') = x3"
  then have "Next_logged s ctx lg = (Inr (Some rv), s', ctx', lg')" by simp
  from Next_span[OF Next_logged_run[OF this]]
  show "((s', ctx', lg'), (s, ctx, lg)) \<in> measure (\<lambda>(s, ctx, lg). span s)" by simp
qed

declare drain_logged.simps [simp del]

definition forget :: "'a \<times> 'b \<times> 'c \<times> 'd \<times> reads \<Rightarrow> 'a \<times> 'b \<times> 'c \<times> 'd" where
  "forget r = (case r of (a, b, c, d, lg) \<Rightarrow> (a, b, c, d))"

lemma forget_simp [simp]: "forget (a, b, c, d, lg) = (a, b, c, d)"
  by (simp add: forget_def)

lemma drain_logged_forget [simp]:
  "forget (drain_logged s ctx lg) = drain s ctx"
proof (induction s ctx lg rule: drain_logged.induct)
  case (1 s ctx lg)
  obtain r s1 c1 l1 where n: "Next_logged s ctx lg = (r, s1, c1, l1)"
    by (cases "Next_logged s ctx lg") auto
  note n' = Next_logged_run[OF n]
  show ?case
  proof (cases r)
    case (Inl e)
    then show ?thesis using n n' by (simp add: drain_logged.simps[of s ctx lg] drain.simps[of s ctx])
  next
    case (Inr d)
    show ?thesis
    proof (cases d)
      case None
      then show ?thesis using n n' Inr
        by (simp add: drain_logged.simps[of s ctx lg] drain.simps[of s ctx])
    next
      case (Some rv)
      obtain rvs e s2 c2 l2 where d2: "drain_logged s1 c1 l1 = (rvs, e, s2, c2, l2)"
        by (cases "drain_logged s1 c1 l1") auto
      from "1.IH"[OF n[symmetric] Inr Some refl refl] d2
      have "drain s1 c1 = (rvs, e, s2, c2)" by simp
      then show ?thesis using n n' Inr Some d2
        by (simp add: drain_logged.simps[of s ctx lg] drain.simps[of s ctx])
    qed
  qed
qed

lemma drain_logged_run:
  assumes "drain_logged s ctx lg = (rvs, e, s', ctx', lg')"
  shows "drain s ctx = (rvs, e, s', ctx')"
proof -
  have "forget (drain_logged s ctx lg) = (rvs, e, s', ctx')" unfolding assms by simp
  then show ?thesis by simp
qed

text \<open>A match that a balanced searcher holds in a slot is not in the pool, so
  reading it keeps the log clean.\<close>

lemma read_clean:
  assumes "balanced s ctx outs" and "d \<in> {currMust s, currShould s, currMustNot s}"
    and "clean lg"
  shows "clean (read_match ctx d lg)"
proof (cases d)
  case None
  then show ?thesis using assms(3) by (simp add: read_match_def)
next
  case (Some m)
  then have "handle m \<in> set (held s)" using assms(2) by (auto simp: held_def slot_handles_def)
  moreover have "distinct (recycled ctx @ held s @ outs)" using balanced_distinct[OF assms(1)] .
  ultimately have "handle m \<notin> set (recycled ctx)" by auto
  then show ?thesis using assms(3) Some by (simp add: read_match_def clean_def)
qed

lemma fold_read_clean:
  assumes "balanced s ctx outs" and "set cons \<subseteq> {currMust s, currShould s, currMustNot s}"
  shows "clean lg \<Longrightarrow> clean (fold (read_match ctx) cons lg)"
  using assms(2)
proof (induction cons arbitrary: lg)
  case Nil
  then show ?case by simp
next
  case (Cons d cons)
  have "clean (read_match ctx d lg)"
    using read_clean[OF assms(1) _ Cons.prems(1), of d] Cons.prems(2) by auto
  from Cons.IH[OF this] Cons.prems(2) show ?case by simp
qed

lemma driving_reads_clean:
  assumes "balanced s ctx outs" and "clean lg"
  shows "clean (driving_reads s ctx lg)"
  using read_clean[OF assms(1) _ assms(2), of "currMust s"]
    read_clean[OF assms(1) _ assms(2), of "currShould s"] assms(2)
  by (simp add: driving_reads_def)

lemma advanceNextMust_logged_clean:
  assumes run: "advanceNextMust_logged s ctx skip lg = (e, s', ctx', lg')"
    and w: "wired0 s" and b: "balanced s ctx outs"
    and sk: "skip = None \<or> map_option handle (currOf (lead s) s) = map_option handle skip"
    and c: "clean lg"
  shows "clean lg'"
proof -
  obtain e1 s1 c1 where a: "advanceNextMust s ctx skip = (e1, s1, c1)"
    by (cases "advanceNextMust s ctx skip") auto
  show ?thesis
  proof (cases e1)
    case (Some x)
    then have "lg' = lg" using run a by (auto simp: advanceNextMust_logged_def)
    then show ?thesis using c by simp
  next
    case None
    then have eq: "lg' = driving_reads s1 c1 lg" using run a by (auto simp: advanceNextMust_logged_def)
    from advanceNextMust_sound[OF a[unfolded None] w b sk]
    have "balanced s1 c1 (outs @ slot_handles skip)" by simp
    from driving_reads_clean[OF this c] show ?thesis unfolding eq .
  qed
qed

lemma reject_logged_clean:
  assumes "reject_logged s ctx lg = (f, s', ctx', lg')"
    and "wired0 s" and "balanced s ctx outs" and "clean lg"
  shows "clean lg'"
proof -
  obtain e s1 c1 l1 where a: "advanceNextMust_logged s ctx None lg = (e, s1, c1, l1)"
    by (cases "advanceNextMust_logged s ctx None lg") auto
  have "lg' = l1" using assms(1) a by (cases e) (auto simp: reject_logged_def)
  then show ?thesis using advanceNextMust_logged_clean[OF a assms(2,3) _ assms(4)] by simp
qed

lemma exclusion_logged_clean:
  assumes run: "exclusion_logged cid s ctx lg = (f, s', ctx', lg')"
    and w: "wired s" and b: "balanced s ctx outs" and c: "clean lg"
  shows "clean lg'"
proof -
  have w0: "wired0 s" using w by (simp add: wired_def)
  let ?lg1 = "read_match ctx (currMustNot s) lg"
  have c1: "clean ?lg1" using read_clean[OF b _ c, of "currMustNot s"] by simp
  show ?thesis
  proof (cases "id_before (currMustNot s) cid")
    case True
    obtain e s1 cx where cc: "call_child MustNot (\<lambda>c ctx. Searcher_Advance c ctx cid) s
        (if currMustNot s \<noteq> None then Pool_Put ctx (currMustNot s) else ctx) = (e, s1, cx)"
      by (cases "call_child MustNot (\<lambda>c ctx. Searcher_Advance c ctx cid) s
        (if currMustNot s \<noteq> None then Pool_Put ctx (currMustNot s) else ctx)") auto
    show ?thesis
    proof (cases e)
      case (Some x)
      then have "lg' = ?lg1" using run True cc by (auto simp: exclusion_logged_def Let_def)
      then show ?thesis using c1 by simp
    next
      case None
      have cc': "call_child MustNot (\<lambda>c ctx. Searcher_Advance c ctx cid) s
          (if currOf MustNot s \<noteq> None then Pool_Put ctx (currOf MustNot s) else ctx) = (None, s1, cx)"
        unfolding currOf.simps using cc None by simp
      have b1: "balanced s1 cx outs" using call_child_recycling[OF thrifty_Advance cc' b] .
      have w1: "wired0 s1" using call_child_wired0[OF cc' w0] .
      let ?lg2 = "read_match cx (currMustNot s1) ?lg1"
      have c2: "clean ?lg2" using read_clean[OF b1 _ c1, of "currMustNot s1"] by simp
      show ?thesis
      proof (cases "id_equals (currMustNot s1) cid")
        case t: True
        then have "reject_logged s1 cx ?lg2 = (f, s', ctx', lg')"
          using run True cc None by (auto simp: exclusion_logged_def Let_def)
        from reject_logged_clean[OF this w1 b1 c2] show ?thesis .
      next
        case False
        then have "lg' = ?lg2" using run True cc None by (auto simp: exclusion_logged_def Let_def)
        then show ?thesis using c2 by simp
      qed
    qed
  next
    case False
    let ?lg2 = "read_match ctx (currMustNot s) ?lg1"
    have c2: "clean ?lg2" using read_clean[OF b _ c1, of "currMustNot s"] by simp
    show ?thesis
    proof (cases "id_equals (currMustNot s) cid")
      case True
      then have "reject_logged s ctx ?lg2 = (f, s', ctx', lg')"
        using run False by (auto simp: exclusion_logged_def Let_def)
      from reject_logged_clean[OF this w0 b c2] show ?thesis .
    next
      case ne: False
      then have "lg' = ?lg2" using run False by (auto simp: exclusion_logged_def Let_def)
      then show ?thesis using c2 by simp
    qed
  qed
qed

text \<open>What \<^verbatim>\<open>Score\<close> returns is its first constituent, so the searcher that
  holds it in the slot of the leading clause is as well wired and as balanced as
  before.\<close>

lemma emit_ready:
  assumes sc: "Scorer_Score (scorer s) cons = Inr rv"
    and w: "wired0 s" and b: "balanced s ctx outs"
    and hd: "hd cons = currOf cl s" and cl: "cl = lead s"
  shows "wired0 (case cl of Must \<Rightarrow> s\<lparr>currMust := Some rv\<rparr>
                      | Should \<Rightarrow> s\<lparr>currShould := Some rv\<rparr>
                      | MustNot \<Rightarrow> s)"
    and "balanced (case cl of Must \<Rightarrow> s\<lparr>currMust := Some rv\<rparr>
                      | Should \<Rightarrow> s\<lparr>currShould := Some rv\<rparr>
                      | MustNot \<Rightarrow> s) ctx outs"
    and "map_option handle (currOf (lead (case cl of Must \<Rightarrow> s\<lparr>currMust := Some rv\<rparr>
                      | Should \<Rightarrow> s\<lparr>currShould := Some rv\<rparr>
                      | MustNot \<Rightarrow> s)) (case cl of Must \<Rightarrow> s\<lparr>currMust := Some rv\<rparr>
                      | Should \<Rightarrow> s\<lparr>currShould := Some rv\<rparr>
                      | MustNot \<Rightarrow> s)) = map_option handle (Some rv)"
proof -
  from sc have ne: "cons \<noteq> []" and nn: "None \<notin> set cons"
    and rv: "rv = (the (hd cons))\<lparr>Score := combine (scorer s) (map (\<lambda>d. Score (the d)) cons)\<rparr>"
    by (auto simp: Scorer_Score_def split: if_splits)
  from nn have "hd cons \<noteq> None" using hd_in_set[OF ne] by metis
  then obtain m where m: "hd cons = Some m" by (cases "hd cons") auto
  then have cur: "currOf cl s = Some m" and h: "handle rv = handle m" using hd rv by simp_all
  let ?s1 = "case cl of Must \<Rightarrow> s\<lparr>currMust := Some rv\<rparr>
                      | Should \<Rightarrow> s\<lparr>currShould := Some rv\<rparr>
                      | MustNot \<Rightarrow> s"
  have cl': "cl = Must \<and> mustSearcher s \<noteq> None \<or> cl = Should \<and> mustSearcher s = None"
    using cl by (simp add: lead_def)
  have held1: "held ?s1 = held s"
    using cl' cur h by (auto simp: held_def slot_handles_def)
  show "balanced ?s1 ctx outs" using b held1 by (simp add: balanced_def)
  show "wired0 ?s1" using w cl' by (auto simp: wired0_def)
  have l1: "lead ?s1 = cl" using cl' by (auto simp: lead_def)
  show "map_option handle (currOf (lead ?s1) ?s1) = map_option handle (Some rv)"
    unfolding l1 using cl' by auto
qed

lemma emit_logged_clean:
  assumes run: "emit_logged cl cons s ctx lg = (f, s', ctx', lg')"
    and w: "wired0 s" and b: "balanced s ctx outs"
    and hd: "hd cons = currOf cl s" and cl: "cl = lead s"
    and sub: "set cons \<subseteq> {currMust s, currShould s, currMustNot s}"
    and c: "clean lg"
  shows "clean lg'"
proof -
  let ?lg1 = "fold (read_match ctx) cons lg"
  have c1: "clean ?lg1" using fold_read_clean[OF b sub c] .
  show ?thesis
  proof (cases "Scorer_Score (scorer s) cons")
    case (Inl e)
    then have "lg' = ?lg1" using run by (auto simp: emit_logged_def Let_def)
    then show ?thesis using c1 by simp
  next
    case (Inr rv)
    let ?s1 = "case cl of Must \<Rightarrow> s\<lparr>currMust := Some rv\<rparr>
                      | Should \<Rightarrow> s\<lparr>currShould := Some rv\<rparr>
                      | MustNot \<Rightarrow> s"
    note rd = emit_ready[OF Inr w b hd cl]
    obtain e s2 c2 l2 where a: "advanceNextMust_logged ?s1 ctx (Some rv) ?lg1 = (e, s2, c2, l2)"
      by (cases "advanceNextMust_logged ?s1 ctx (Some rv) ?lg1") auto
    have "lg' = l2" using run Inr a by (cases e) (auto simp: emit_logged_def Let_def)
    moreover have "clean l2"
      using advanceNextMust_logged_clean[OF a rd(1) rd(2) _ c1] rd(3) by blast
    ultimately show ?thesis by simp
  qed
qed

lemma scoreBonus_logged_clean:
  assumes "scoreBonus_logged s ctx lg = (f, s', ctx', lg')"
    and "wired s" and "currentID s \<noteq> None" and "balanced s ctx outs" and "clean lg"
  shows "clean lg'"
proof (cases "currMust s \<noteq> None")
  case True
  then have e: "emit_logged Must [currMust s, currShould s] s ctx lg = (f, s', ctx', lg')"
    using assms(1) by (simp add: scoreBonus_logged_def)
  have l: "Must = lead s" using True assms(2) by (simp add: lead_def wired_def wired0_def)
  have w0: "wired0 s" using assms(2) by (simp add: wired_def)
  show ?thesis using emit_logged_clean[OF e w0 assms(4) _ l _ assms(5)] by simp
next
  case False
  then have e: "emit_logged Should [currShould s] s ctx lg = (f, s', ctx', lg')"
    using assms(1) by (simp add: scoreBonus_logged_def)
  have l: "Should = lead s" using False assms(2,3) by (auto simp: lead_def wired_def)
  have w0: "wired0 s" using assms(2) by (simp add: wired_def)
  show ?thesis using emit_logged_clean[OF e w0 assms(4) _ l _ assms(5)] by simp
qed

lemma scoreMustOnly_logged_clean:
  assumes "scoreMustOnly_logged s ctx lg = (f, s', ctx', lg')"
    and "wired s" and "balanced s ctx outs" and "clean lg"
  shows "clean lg'"
proof (cases "currMust s \<noteq> None")
  case True
  have e: "emit_logged Must [currMust s] s ctx lg = (f, s', ctx', lg')"
    using assms(1) by (simp add: scoreMustOnly_logged_def)
  have l: "Must = lead s" using True assms(2) by (simp add: lead_def wired_def wired0_def)
  have w0: "wired0 s" using assms(2) by (simp add: wired_def)
  show ?thesis using emit_logged_clean[OF e w0 assms(3) _ l _ assms(4)] by simp
next
  case False
  then have "lg' = lg" using assms(1)
    by (auto simp: scoreMustOnly_logged_def emit_logged_def Scorer_Score_def Let_def read_match_def)
  then show ?thesis using assms(4) by simp
qed

lemma alignment_tail_logged_clean:
  assumes run: "(case shouldMin s of
              Inl e \<Rightarrow> (Return e, s, ctx, lg)
            | Inr n \<Rightarrow> if n = 0 then scoreMustOnly_logged s ctx lg
                       else (Fallthrough, s, ctx, lg)) = (f, s', ctx', lg')"
    and w: "wired s" and b: "balanced s ctx outs" and c: "clean lg"
  shows "clean lg'"
proof (cases "shouldMin s")
  case (Inl e)
  then have "lg' = lg" using run by auto
  then show ?thesis using c by simp
next
  case (Inr n)
  show ?thesis
  proof (cases "n = 0")
    case True
    then have "scoreMustOnly_logged s ctx lg = (f, s', ctx', lg')" using run Inr by simp
    from scoreMustOnly_logged_clean[OF this w b c] show ?thesis .
  next
    case False
    then have "lg' = lg" using run Inr by auto
    then show ?thesis using c by simp
  qed
qed

lemma alignment_logged_clean:
  assumes run: "alignment_logged cid s ctx lg = (f, s', ctx', lg')"
    and w: "wired s" and cur: "currentID s \<noteq> None" and b: "balanced s ctx outs"
    and c: "clean lg"
  shows "clean lg'"
proof -
  let ?lg1 = "read_match ctx (currShould s) lg"
  have c1: "clean ?lg1" using read_clean[OF b _ c, of "currShould s"] by simp
  show ?thesis
  proof (cases "id_before (currShould s) cid")
    case True
    obtain e s1 cx where cc: "call_child Should (\<lambda>c ctx. Searcher_Advance c ctx cid) s
        (if currShould s \<noteq> None then Pool_Put ctx (currShould s) else ctx) = (e, s1, cx)"
      by (cases "call_child Should (\<lambda>c ctx. Searcher_Advance c ctx cid) s
        (if currShould s \<noteq> None then Pool_Put ctx (currShould s) else ctx)") auto
    show ?thesis
    proof (cases e)
      case (Some x)
      then have "lg' = ?lg1" using run True cc by (auto simp: alignment_logged_def Let_def)
      then show ?thesis using c1 by simp
    next
      case None
      have cc': "call_child Should (\<lambda>c ctx. Searcher_Advance c ctx cid) s
          (if currOf Should s \<noteq> None then Pool_Put ctx (currOf Should s) else ctx) = (None, s1, cx)"
        unfolding currOf.simps using cc None by simp
      have b1: "balanced s1 cx outs" using call_child_recycling[OF thrifty_Advance cc' b] .
      have w1: "wired s1" and id1: "currentID s1 \<noteq> None"
        using call_child_wired[OF cc' w] cur by simp_all
      let ?lg2 = "read_match cx (currShould s1) ?lg1"
      have c2: "clean ?lg2" using read_clean[OF b1 _ c1, of "currShould s1"] by simp
      show ?thesis
      proof (cases "id_equals (currShould s1) cid")
        case t: True
        then have "scoreBonus_logged s1 cx ?lg2 = (f, s', ctx', lg')"
          using run True cc None by (simp add: alignment_logged_def Let_def)
        from scoreBonus_logged_clean[OF this w1 id1 b1 c2] show ?thesis .
      next
        case False
        then have "(case shouldMin s1 of
              Inl e \<Rightarrow> (Return e, s1, cx, ?lg2)
            | Inr n \<Rightarrow> if n = 0 then scoreMustOnly_logged s1 cx ?lg2
                       else (Fallthrough, s1, cx, ?lg2)) = (f, s', ctx', lg')"
          using run True cc None by (simp add: alignment_logged_def Let_def)
        from alignment_tail_logged_clean[OF this w1 b1 c2] show ?thesis .
      qed
    qed
  next
    case False
    let ?lg2 = "read_match ctx (currShould s) ?lg1"
    have c2: "clean ?lg2" using read_clean[OF b _ c1, of "currShould s"] by simp
    show ?thesis
    proof (cases "id_equals (currShould s) cid")
      case True
      then have "scoreBonus_logged s ctx ?lg2 = (f, s', ctx', lg')"
        using run False by (simp add: alignment_logged_def Let_def)
      from scoreBonus_logged_clean[OF this w cur b c2] show ?thesis .
    next
      case ne: False
      show ?thesis
      proof (cases "shouldSearcher s = None")
        case True
        then have "scoreMustOnly_logged s ctx ?lg2 = (f, s', ctx', lg')"
          using run False ne by (simp add: alignment_logged_def Let_def)
        from scoreMustOnly_logged_clean[OF this w b c2] show ?thesis .
      next
        case sp: False
        then have "(case shouldMin s of
              Inl e \<Rightarrow> (Return e, s, ctx, ?lg2)
            | Inr n \<Rightarrow> if n = 0 then scoreMustOnly_logged s ctx ?lg2
                       else (Fallthrough, s, ctx, ?lg2)) = (f, s', ctx', lg')"
          using run False ne by (auto simp: alignment_logged_def Let_def)
        from alignment_tail_logged_clean[OF this w b c2] show ?thesis .
      qed
    qed
  qed
qed

lemma exclusion_logged_run:
  assumes "exclusion_logged cid s ctx lg = (f, s', ctx', lg')"
  shows "exclusion cid s ctx = (f, s', ctx')"
proof -
  have "erase (exclusion_logged cid s ctx lg) = (f, s', ctx')" unfolding assms by simp
  then show ?thesis by simp
qed

lemma alignment_logged_run:
  assumes "alignment_logged cid s ctx lg = (f, s', ctx', lg')"
  shows "alignment cid s ctx = (f, s', ctx')"
proof -
  have "erase (alignment_logged cid s ctx lg) = (f, s', ctx')" unfolding assms by simp
  then show ?thesis by simp
qed

lemma Next_body_logged_clean:
  assumes run: "Next_body_logged cid s ctx lg = (f, s', ctx', lg')"
    and w: "wired s" and cur: "currentID s \<noteq> None" and b: "balanced s ctx outs"
    and c: "clean lg"
  shows "clean lg'"
proof -
  obtain f1 s1 c1 l1 where ex: "exclusion_logged cid s ctx lg = (f1, s1, c1, l1)"
    by (cases "exclusion_logged cid s ctx lg") auto
  have cl1: "clean l1" using exclusion_logged_clean[OF ex w b c] .
  show ?thesis
  proof (cases "f1 = Fallthrough")
    case True
    then have ok1: "error_of f1 = None" by (simp add: error_of_def)
    from exclusion_sound[OF exclusion_logged_run[OF ex] ok1 w b] True
    have w1: "wired s1" and b1: "balanced s1 c1 outs" and id1: "currentID s1 \<noteq> None"
      using cur by auto
    obtain f2 s2 c2 l2 where al: "alignment_logged cid s1 c1 l1 = (f2, s2, c2, l2)"
      by (cases "alignment_logged cid s1 c1 l1") auto
    have cl2: "clean l2" using alignment_logged_clean[OF al w1 id1 b1 cl1] .
    show ?thesis
    proof (cases "f2 = Fallthrough")
      case t: True
      then have ok2: "error_of f2 = None" by (simp add: error_of_def)
      from alignment_sound[OF alignment_logged_run[OF al] ok2 w1 id1 b1] t
      have w2: "wired0 s2" and b2: "balanced s2 c2 outs" by (simp_all add: handed_def wired_def)
      have "reject_logged s2 c2 l2 = (f, s', ctx', lg')"
        using run ex al True t by (simp add: Next_body_logged_def)
      from reject_logged_clean[OF this w2 b2 cl2] show ?thesis .
    next
      case False
      then have "lg' = l2" using run ex al True by (cases f2; auto simp: Next_body_logged_def)
      then show ?thesis using cl2 by simp
    qed
  next
    case False
    then have "lg' = l1" using run ex by (cases f1; auto simp: Next_body_logged_def)
    then show ?thesis using cl1 by simp
  qed
qed

lemma Next_loop_logged_clean:
  "Next_loop_logged s ctx lg = (r, s', ctx', lg') \<Longrightarrow> wired s \<Longrightarrow> balanced s ctx outs
     \<Longrightarrow> clean lg \<Longrightarrow> clean lg'"
proof (induction s ctx lg rule: Next_loop_logged.induct)
  case (1 s ctx lg)
  show ?case
  proof (cases "currentID s")
    case None
    then show ?thesis using "1.prems" by (auto simp: Next_loop_logged_exhausted)
  next
    case (Some cid)
    obtain f s1 c1 l1 where bd: "Next_body_logged cid s ctx lg = (f, s1, c1, l1)"
      by (cases "Next_body_logged cid s ctx lg") auto
    have cur: "currentID s \<noteq> None" using Some by simp
    have cl1: "clean l1" using Next_body_logged_clean[OF bd "1.prems"(2) cur "1.prems"(3,4)] .
    show ?thesis
    proof (cases f)
      case Continue
      then have ok: "error_of f = None" by (simp add: error_of_def)
      from Next_body_sound[OF Next_body_logged_run[OF bd] ok "1.prems"(2) cur "1.prems"(3)] Continue
      have w1: "wired s1" and b1: "balanced s1 c1 outs" by (simp_all add: handed_def)
      have "Next_loop_logged s1 c1 l1 = (r, s', ctx', lg')"
        using "1.prems"(1) Some bd Continue by (simp add: Next_loop_logged_step)
      from "1.IH"(1)[OF Some bd[symmetric] Continue refl refl this w1 b1 cl1] show ?thesis .
    next
      case Fallthrough
      then show ?thesis using Next_body_flow[OF Next_body_logged_run[OF bd]] by simp
    next
      case (Break rv)
      then have "lg' = l1" using "1.prems"(1) Some bd by (auto simp: Next_loop_logged_step)
      then show ?thesis using cl1 by simp
    next
      case (Return e)
      then have "lg' = l1" using "1.prems"(1) Some bd by (auto simp: Next_loop_logged_step)
      then show ?thesis using cl1 by simp
    qed
  qed
qed

lemma initSearchers_logged_clean:
  assumes "initSearchers_logged s ctx lg = (e, s', ctx', lg')"
    and "wired0 s" and "balanced s ctx outs" and "clean lg"
  shows "clean lg'"
proof -
  obtain e1 s1 c1 where i: "initSearchers s ctx = (e1, s1, c1)"
    by (cases "initSearchers s ctx") auto
  show ?thesis
  proof (cases e1)
    case (Some x)
    then have "lg' = lg" using assms(1) i by (auto simp: initSearchers_logged_def)
    then show ?thesis using assms(4) by simp
  next
    case None
    then have eq: "lg' = driving_reads s1 c1 lg" using assms(1) i by (auto simp: initSearchers_logged_def)
    from initSearchers_sound[OF i[unfolded None] assms(2,3)]
    have "balanced s1 c1 outs" by simp
    from driving_reads_clean[OF this assms(4)] show ?thesis unfolding eq .
  qed
qed

lemma Next_logged_clean:
  assumes "Next_logged s ctx lg = (r, s', ctx', lg')" and "wired s" and "balanced s ctx outs"
    and "clean lg"
  shows "clean lg'"
proof (cases "initialized s")
  case True
  then have "Next_loop_logged s ctx lg = (r, s', ctx', lg')" using assms(1) by (simp add: Next_logged_def)
  from Next_loop_logged_clean[OF this assms(2,3,4)] show ?thesis .
next
  case False
  obtain e s1 c1 l1 where i: "initSearchers_logged s ctx lg = (e, s1, c1, l1)"
    by (cases "initSearchers_logged s ctx lg") auto
  have w0: "wired0 s" using assms(2) by (simp add: wired_def)
  have cl1: "clean l1" using initSearchers_logged_clean[OF i w0 assms(3,4)] .
  show ?thesis
  proof (cases e)
    case None
    from initSearchers_sound[OF initSearchers_logged_run[OF i[unfolded None]] w0 assms(3)]
    have w1: "wired s1" and b1: "balanced s1 c1 outs" by simp_all
    have "Next_loop_logged s1 c1 l1 = (r, s', ctx', lg')"
      using assms(1) False i None by (simp add: Next_logged_def)
    from Next_loop_logged_clean[OF this w1 b1 cl1] show ?thesis .
  next
    case (Some x)
    then have "lg' = l1" using assms(1) False i by (auto simp: Next_logged_def)
    then show ?thesis using cl1 by simp
  qed
qed

lemma Advance_logged_clean:
  assumes "Advance_logged s ctx X lg = (r, s', ctx', lg')" and "wired s" and "balanced s ctx outs"
    and "clean lg"
  shows "clean lg'"
proof -
  let ?i = "if \<not> initialized s then initSearchers_logged s ctx lg else (None, s, ctx, lg)"
  obtain e0 s0 c0 l0 where i: "?i = (e0, s0, c0, l0)" by (cases ?i) auto
  have w0: "wired0 s" using assms(2) by (simp add: wired_def)
  have cl0: "clean l0"
  proof (cases "initialized s")
    case True
    then show ?thesis using i assms(4) by simp
  next
    case False
    then have "initSearchers_logged s ctx lg = (e0, s0, c0, l0)" using i by simp
    from initSearchers_logged_clean[OF this w0 assms(3,4)] show ?thesis .
  qed
  show ?thesis
  proof (cases e0)
    case (Some x)
    then have "lg' = l0" using assms(1) i by (auto simp: Advance_logged_def)
    then show ?thesis using cl0 by simp
  next
    case None
    have s0: "wired0 s0 \<and> balanced s0 c0 outs"
    proof (cases "initialized s")
      case True
      then show ?thesis using i w0 assms(3) by simp
    next
      case False
      then have "initSearchers_logged s ctx lg = (None, s0, c0, l0)" using i None by simp
      from initSearchers_sound[OF initSearchers_logged_run[OF this] w0 assms(3)]
      show ?thesis by (simp add: wired_def)
    qed
    let ?rp = "and_then (refill Must (\<lambda>c ctx. Searcher_Advance c ctx X) s0 c0) (\<lambda>s ctx.
       and_then (refill Should (\<lambda>c ctx. Searcher_Advance c ctx X) s ctx) (\<lambda>s ctx.
       and_then (refill MustNot (\<lambda>c ctx. Searcher_Advance c ctx X) s ctx) (\<lambda>s ctx.
         (None, s\<lparr>currentID := drivingID s\<rparr>, ctx))))"
    obtain e1 s1 c1 where rp: "?rp = (e1, s1, c1)" by (cases ?rp) auto
    show ?thesis
    proof (cases e1)
      case (Some x)
      then have "lg' = l0" using assms(1) i None rp by (auto simp: Advance_logged_def)
      then show ?thesis using cl0 by simp
    next
      case n: None
      from reposition_sound[OF rp[unfolded n] s0[THEN conjunct1] s0[THEN conjunct2]]
      have w1: "wired s1" and b1: "balanced s1 c1 outs" by simp_all
      have cl1: "clean (driving_reads s1 c1 l0)" using driving_reads_clean[OF b1 cl0] .
      have "Next_logged s1 c1 (driving_reads s1 c1 l0) = (r, s', ctx', lg')"
        using assms(1) i None rp n by (simp add: Advance_logged_def)
      from Next_logged_clean[OF this w1 b1 cl1] show ?thesis .
    qed
  qed
qed

lemma drain_logged_clean:
  "drain_logged s ctx lg = (rvs, e, s', ctx', lg') \<Longrightarrow> wired s \<Longrightarrow> balanced s ctx outs
     \<Longrightarrow> clean lg \<Longrightarrow> clean lg'"
proof (induction s ctx lg arbitrary: rvs outs e s' ctx' lg' rule: drain_logged.induct)
  case (1 s ctx lg)
  obtain r s1 c1 l1 where n: "Next_logged s ctx lg = (r, s1, c1, l1)"
    by (cases "Next_logged s ctx lg") auto
  have cl1: "clean l1" using Next_logged_clean[OF n "1.prems"(2,3,4)] .
  show ?case
  proof (cases r)
    case (Inl x)
    then have "lg' = l1" using "1.prems"(1) n by (auto simp: drain_logged.simps[of s ctx lg])
    then show ?thesis using cl1 by simp
  next
    case (Inr d)
    show ?thesis
    proof (cases d)
      case None
      then have "lg' = l1" using "1.prems"(1) n Inr by (auto simp: drain_logged.simps[of s ctx lg])
      then show ?thesis using cl1 by simp
    next
      case (Some rv)
      from Next_sound[OF Next_logged_run[OF n[unfolded Inr Some]] "1.prems"(2,3)]
      have w1: "wired s1" and b1: "balanced s1 c1 (outs @ slot_handles (Some rv))" by simp_all
      obtain rest e2 s2 c2 l2 where d2: "drain_logged s1 c1 l1 = (rest, e2, s2, c2, l2)"
        by (cases "drain_logged s1 c1 l1") auto
      have "lg' = l2" using "1.prems"(1) n Inr Some d2 by (auto simp: drain_logged.simps[of s ctx lg])
      moreover have "clean l2" using "1.IH"[OF n[symmetric] Inr Some refl refl d2 w1 b1 cl1] .
      ultimately show ?thesis by simp
    qed
  qed
qed

text \<open>Every searcher that the constructor returns is wired, and its books are
  balanced in a context that has issued no match yet.\<close>

lemma NewBooleanSearcher_balanced:
  "wired (NewBooleanSearcher f must should mustNot e)"
  "balanced (NewBooleanSearcher f must should mustNot e) new_context []"
  by (simp_all add: NewBooleanSearcher_record wired_def wired0_def balanced_def held_def
        slot_handles_def new_context_def)

text \<open>A read of a match that has just been put back shows in the log.\<close>

lemma read_after_Put:
  "\<not> clean (read_match (Pool_Put ctx (Some m)) (Some m) lg)"
  by (simp add: clean_def read_match_def Pool_Put_def)

text \<open>
  Claim C5, as amended. Start from a state whose books are balanced: every handle
  issued so far is in the pool, in a slot of the searcher, or among the matches
  \<open>outs\<close> already handed to the caller, each counted once. Then every
  \<^verbatim>\<open>Next\<close> and every \<^verbatim>\<open>Advance\<close> that returns without error leaves the
  books balanced, with the returned match added to the caller's. So over an
  error-free iteration to exhaustion every match obtained from a child is exactly
  one of: recycled, once; handed to the caller, once; or still held in
  \<^verbatim>\<open>currMust\<close>, \<^verbatim>\<open>currShould\<close> or \<^verbatim>\<open>currMustNot\<close> when the iteration
  ends. No match is recycled twice and none is both recycled and returned. And no
  match object is read after it was returned to the pool: the logged runs are the
  runs themselves, and every entry of their read logs is a read of a match that
  the pool had not received at that moment.
\<close>

theorem pool_hygiene:
  assumes "wired s" and "balanced s ctx outs" and "clean lg"
  shows "(Next s ctx = (Inr r, sa, ca) \<longrightarrow> wired sa \<and> balanced sa ca (outs @ slot_handles r))
       \<and> (Advance s ctx X = (Inr rb, sb, cb) \<longrightarrow> wired sb \<and> balanced sb cb (outs @ slot_handles rb))
       \<and> (drain s ctx = (rvs, None, s', ctx') \<longrightarrow>
            mset (recycled ctx') + mset (held s') + mset (outs @ map handle rvs) = mset [0..<issued ctx']
            \<and> distinct (recycled ctx' @ held s' @ outs @ map handle rvs))
       \<and> erase (Next_logged s ctx lg) = Next s ctx
       \<and> erase (Advance_logged s ctx X lg) = Advance s ctx X
       \<and> forget (drain_logged s ctx lg) = drain s ctx
       \<and> (Next_logged s ctx lg = (rc, sc, cc, lc) \<longrightarrow> clean lc)
       \<and> (Advance_logged s ctx X lg = (rd, sd, cd, ld) \<longrightarrow> clean ld)
       \<and> (drain_logged s ctx lg = (rvs', e, se, ce, le) \<longrightarrow> clean le)"
proof (intro conjI impI)
  assume "Next s ctx = (Inr r, sa, ca)"
  from Next_sound[OF this assms(1,2)] show "wired sa" "balanced sa ca (outs @ slot_handles r)" by simp_all
next
  assume "Advance s ctx X = (Inr rb, sb, cb)"
  from Advance_sound[OF this assms(1,2)] show "wired sb" "balanced sb cb (outs @ slot_handles rb)" by simp_all
next
  assume "drain s ctx = (rvs, None, s', ctx')"
  from drain_sound[OF this assms(1,2)] have b: "balanced s' ctx' (outs @ map handle rvs)" by simp
  then show "mset (recycled ctx') + mset (held s') + mset (outs @ map handle rvs) = mset [0..<issued ctx']"
    by (simp add: balanced_def)
  show "distinct (recycled ctx' @ held s' @ outs @ map handle rvs)"
    using balanced_distinct[OF b] .
next
  show "erase (Next_logged s ctx lg) = Next s ctx" by simp
  show "erase (Advance_logged s ctx X lg) = Advance s ctx X" by simp
  show "forget (drain_logged s ctx lg) = drain s ctx" by simp
next
  assume "Next_logged s ctx lg = (rc, sc, cc, lc)"
  from Next_logged_clean[OF this assms] show "clean lc" .
next
  assume "Advance_logged s ctx X lg = (rd, sd, cd, ld)"
  from Advance_logged_clean[OF this assms] show "clean ld" .
next
  assume "drain_logged s ctx lg = (rvs', e, se, ce, le)"
  from drain_logged_clean[OF this assms] show "clean le" .
qed

text \<open>A must child over 1 and a must-not child over 5.\<close>

definition leftover_example :: "nat BooleanSearcher" where
  "leftover_example =
     NewBooleanSearcher (\<lambda>xs. Finite 0)
       (Some (fresh [(1, Finite 1)] 0)) None (Some (fresh [(5, Finite 1)] 0)) False"

text \<open>The state in which the iteration over the example ends: the must child is
  exhausted, and the must-not slot still holds the match that
  \<^verbatim>\<open>initSearchers\<close> pulled.\<close>

definition after_exhaustion :: "nat BooleanSearcher" where
  "after_exhaustion =
     \<lparr>mustSearcher =
        Some \<lparr>position = None, upcoming = [], faults = [],
              weight = Finite 1, norms = [Finite 1], min_required = 0,
              close_fault = None, closed = False\<rparr>,
      shouldSearcher = None,
      mustNotSearcher =
        Some \<lparr>position = Some (5, Finite 1), upcoming = [], faults = [],
              weight = Finite 1, norms = [], min_required = 0,
              close_fault = None, closed = False\<rparr>,
      queryNorm = Finite 1,
      currMust = None,
      currShould = None,
      currMustNot = Some \<lparr>handle = 1, IndexInternalID = 5, Score = Finite 1\<rparr>,
      currentID = None,
      scorer = \<lparr>explain = False, combine = \<lambda>xs. Finite 0\<rparr>,
      initialized = True\<rparr>"

lemma leftover_first:
  "Next leftover_example new_context
     = (Inr (Some \<lparr>handle = 0, IndexInternalID = 1, Score = Finite 0\<rparr>),
        after_exhaustion, \<lparr>issued = 2, recycled = []\<rparr>)"
  by (simp add: leftover_example_def NewBooleanSearcher_record norm_of_def fresh_def new_context_def
      after_exhaustion_def run_defs)

lemma leftover_second:
  "Next after_exhaustion \<lparr>issued = 2, recycled = []\<rparr>
     = (Inr None, after_exhaustion, \<lparr>issued = 2, recycled = []\<rparr>)"
  by (simp add: after_exhaustion_def run_defs)

lemma leftover_drain:
  "drain leftover_example new_context
     = ([\<lparr>handle = 0, IndexInternalID = 1, Score = Finite 0\<rparr>], None,
        after_exhaustion, \<lparr>issued = 2, recycled = []\<rparr>)"
  by (simp add: drain.simps[of leftover_example new_context]
        drain.simps[of after_exhaustion "\<lparr>issued = 2, recycled = []\<rparr>"]
        leftover_first leftover_second)

lemma leftover_Advance:
  "Advance leftover_example new_context 1
     = (Inr (Some \<lparr>handle = 2, IndexInternalID = 1, Score = Finite 0\<rparr>),
        after_exhaustion\<lparr>currMustNot := Some \<lparr>handle = 3, IndexInternalID = 5, Score = Finite 1\<rparr>\<rparr>,
        \<lparr>issued = 4, recycled = [0, 1]\<rparr>)"
  by (simp add: leftover_example_def NewBooleanSearcher_record norm_of_def fresh_def new_context_def
      after_exhaustion_def Advance_def run_defs)

lemma leftover_start:
  "wired leftover_example" "balanced leftover_example new_context []"
  by (simp_all add: leftover_example_def NewBooleanSearcher_record wired_def wired0_def
        balanced_def held_def slot_handles_def new_context_def)

text \<open>
  The iteration over the example runs to exhaustion without error. Two matches
  were obtained from the children. The one with handle 0 was returned to the
  caller; the one with handle 1, which the must-not child delivered, was neither
  recycled nor returned: it is still in \<^verbatim>\<open>currMustNot\<close>.
\<close>

theorem match_left_in_slot_counterexample:
  "fst (snd (drain leftover_example new_context)) = None
   \<and> issued (snd (snd (snd (drain leftover_example new_context)))) = 2
   \<and> recycled (snd (snd (snd (drain leftover_example new_context)))) = []
   \<and> map handle (fst (drain leftover_example new_context)) = [0]
   \<and> map_option handle (currMustNot (fst (snd (snd (drain leftover_example new_context))))) = Some 1"
  by (simp add: leftover_drain) (simp add: after_exhaustion_def)

text \<open>The logged runs on the example.\<close>

lemmas logged_defs = Next_logged_def initSearchers_logged_def advanceNextMust_logged_def
  reject_logged_def exclusion_logged_def emit_logged_def scoreBonus_logged_def
  scoreMustOnly_logged_def alignment_logged_def Next_body_logged_def Next_loop_logged_step
  Next_loop_logged_exhausted driving_reads_def read_match_def Let_def

lemma leftover_first_logged:
  "Next_logged leftover_example new_context []
     = (Inr (Some \<lparr>handle = 0, IndexInternalID = 1, Score = Finite 0\<rparr>),
        after_exhaustion, \<lparr>issued = 2, recycled = []\<rparr>,
        [(0, []), (1, []), (1, []), (0, [])])"
  by (simp add: leftover_example_def NewBooleanSearcher_record norm_of_def fresh_def new_context_def
      after_exhaustion_def run_defs logged_defs)

lemma leftover_second_logged:
  "Next_logged after_exhaustion \<lparr>issued = 2, recycled = []\<rparr> lg
     = (Inr None, after_exhaustion, \<lparr>issued = 2, recycled = []\<rparr>, lg)"
  by (simp add: after_exhaustion_def run_defs logged_defs)

lemma drain_logged_end:
  "Next_logged s ctx lg = (Inr None, s', ctx', lg') \<Longrightarrow> drain_logged s ctx lg = ([], None, s', ctx', lg')"
  by (simp add: drain_logged.simps[of s ctx lg])

lemma drain_logged_more:
  "Next_logged s ctx lg = (Inr (Some rv), s', ctx', lg')
     \<Longrightarrow> drain_logged s ctx lg = (case drain_logged s' ctx' lg' of (rvs, r) \<Rightarrow> (rv # rvs, r))"
  by (simp add: drain_logged.simps[of s ctx lg])

lemma leftover_drain_logged:
  "drain_logged leftover_example new_context []
     = ([\<lparr>handle = 0, IndexInternalID = 1, Score = Finite 0\<rparr>], None,
        after_exhaustion, \<lparr>issued = 2, recycled = []\<rparr>,
        [(0, []), (1, []), (1, []), (0, [])])"
  unfolding drain_logged_more[OF leftover_first_logged] drain_logged_end[OF leftover_second_logged]
  by simp

lemma leftover_Advance_logged:
  "Advance_logged leftover_example new_context 1 []
     = (Inr (Some \<lparr>handle = 2, IndexInternalID = 1, Score = Finite 0\<rparr>),
        after_exhaustion\<lparr>currMustNot := Some \<lparr>handle = 3, IndexInternalID = 5, Score = Finite 1\<rparr>\<rparr>,
        \<lparr>issued = 4, recycled = [0, 1]\<rparr>,
        [(0, []), (2, [0, 1]), (3, [0, 1]), (3, [0, 1]), (2, [0, 1])])"
  by (simp add: leftover_example_def NewBooleanSearcher_record norm_of_def fresh_def new_context_def
      after_exhaustion_def Advance_logged_def run_defs logged_defs)

text \<open>
  The example keeps its books through \<^verbatim>\<open>Next\<close>, through \<^verbatim>\<open>Advance\<close> and
  through the iteration to exhaustion, and the read logs of the three runs show
  each read with what the pool held: \<^verbatim>\<open>Advance\<close> recycles the matches 0 and 1
  and then reads only the matches 2 and 3 that replaced them.
\<close>

theorem pool_hygiene_witness:
  "wired leftover_example \<and> balanced leftover_example new_context [] \<and> clean []
   \<and> Next leftover_example new_context
       = (Inr (Some \<lparr>handle = 0, IndexInternalID = 1, Score = Finite 0\<rparr>),
          after_exhaustion, \<lparr>issued = 2, recycled = []\<rparr>)
   \<and> balanced after_exhaustion \<lparr>issued = 2, recycled = []\<rparr> [0]
   \<and> Advance leftover_example new_context 1
       = (Inr (Some \<lparr>handle = 2, IndexInternalID = 1, Score = Finite 0\<rparr>),
          after_exhaustion\<lparr>currMustNot := Some \<lparr>handle = 3, IndexInternalID = 5, Score = Finite 1\<rparr>\<rparr>,
          \<lparr>issued = 4, recycled = [0, 1]\<rparr>)
   \<and> balanced
        (after_exhaustion\<lparr>currMustNot := Some \<lparr>handle = 3, IndexInternalID = 5, Score = Finite 1\<rparr>\<rparr>)
        \<lparr>issued = 4, recycled = [0, 1]\<rparr> [2]
   \<and> drain leftover_example new_context
       = ([\<lparr>handle = 0, IndexInternalID = 1, Score = Finite 0\<rparr>], None,
          after_exhaustion, \<lparr>issued = 2, recycled = []\<rparr>)
   \<and> distinct (recycled \<lparr>issued = 2, recycled = []\<rparr> @ held after_exhaustion @ [0])
   \<and> snd (snd (snd (Next_logged leftover_example new_context [])))
       = [(0, []), (1, []), (1, []), (0, [])]
   \<and> clean [(0, []), (1, []), (1, []), (0, [])]
   \<and> snd (snd (snd (Advance_logged leftover_example new_context 1 [])))
       = [(0, []), (2, [0, 1]), (3, [0, 1]), (3, [0, 1]), (2, [0, 1])]
   \<and> clean [(0, []), (2, [0, 1]), (3, [0, 1]), (3, [0, 1]), (2, [0, 1])]
   \<and> snd (snd (snd (snd (drain_logged leftover_example new_context []))))
       = [(0, []), (1, []), (1, []), (0, [])]"
proof -
  have c0: "clean []" by (simp add: clean_def)
  note t = pool_hygiene[OF leftover_start c0,
      where r = "Some \<lparr>handle = 0, IndexInternalID = 1, Score = Finite 0\<rparr>"
        and sa = after_exhaustion and ca = "\<lparr>issued = 2, recycled = []\<rparr>"
        and X = 1 and rb = "Some \<lparr>handle = 2, IndexInternalID = 1, Score = Finite 0\<rparr>"
        and sb = "after_exhaustion\<lparr>currMustNot := Some \<lparr>handle = 3, IndexInternalID = 5, Score = Finite 1\<rparr>\<rparr>"
        and cb = "\<lparr>issued = 4, recycled = [0, 1]\<rparr>"
        and rvs = "[\<lparr>handle = 0, IndexInternalID = 1, Score = Finite 0\<rparr>]"
        and s' = after_exhaustion and ctx' = "\<lparr>issued = 2, recycled = []\<rparr>"
        and rc = "Inr (Some \<lparr>handle = 0, IndexInternalID = 1, Score = Finite 0\<rparr>)"
        and sc = after_exhaustion and cc = "\<lparr>issued = 2, recycled = []\<rparr>"
        and lc = "[(0, []), (1, []), (1, []), (0, [])]"
        and rd = "Inr (Some \<lparr>handle = 2, IndexInternalID = 1, Score = Finite 0\<rparr>)"
        and sd = "after_exhaustion\<lparr>currMustNot := Some \<lparr>handle = 3, IndexInternalID = 5, Score = Finite 1\<rparr>\<rparr>"
        and cd = "\<lparr>issued = 4, recycled = [0, 1]\<rparr>"
        and ld = "[(0, []), (2, [0, 1]), (3, [0, 1]), (3, [0, 1]), (2, [0, 1])]"]
  show ?thesis
    using t leftover_start c0 leftover_first leftover_Advance leftover_drain
      leftover_first_logged leftover_Advance_logged leftover_drain_logged
    by (simp add: slot_handles_def)
qed

end
